theory Spec2Isabelle
  imports Main
begin

section \<open>The document tree\<close>

text \<open>
  The editor's document (Toolbar: \<^verbatim>\<open>CustomText\<close>, \<^verbatim>\<open>CustomElement\<close>) is a tree of
  elements with text leaves. A leaf has its text and five optional boolean marks; a mark
  key that is absent is \<open>None\<close>. An element has a type, an optional alignment and its
  children. The serializer takes \<^verbatim>\<open>any[]\<close> and switches on \<^verbatim>\<open>node.type\<close> with a default
  branch, so the type and the alignment are kept as the strings they are at run time.

  The marks of a leaf, \<^verbatim>\<open>Omit<CustomText, 'text'>\<close>, are a record of their own: the host
  library hands them around without the text (\<^verbatim>\<open>Editor.marks\<close>, \<^verbatim>\<open>editor.marks\<close>), and a
  leaf is these marks together with its text.
\<close>

record EditorMarks =
  bold :: "bool option"
  italic :: "bool option"
  underline :: "bool option"
  strike :: "bool option"
  code :: "bool option"

record leaf = EditorMarks +
  leaf_text :: string

datatype node =
  Text leaf
  | Element string "string option" "node list"

text \<open>A leaf that has only its text: \<^verbatim>\<open>{ text: s }\<close>.\<close>

definition plain :: "string \<Rightarrow> leaf" where
  "plain s = \<lparr>bold = None, italic = None, underline = None, strike = None, code = None, leaf_text = s\<rparr>"

section \<open>Export: serializeToDocx\<close>

text \<open>
  The objects of the docx library that the serializer constructs, with the options it
  passes. An option that the call leaves out, or passes as \<^verbatim>\<open>undefined\<close>, is \<open>None\<close>.
\<close>

datatype AlignmentType = LEFT | CENTER | RIGHT | JUSTIFIED

text \<open>
  What the serializer passes as \<^verbatim>\<open>alignment\<close>: a member of \<^verbatim>\<open>AlignmentType\<close>, or, for a key
  that the table \<^verbatim>\<open>alignmentMap\<close> only inherits, the inherited member of \<^verbatim>\<open>Object.prototype\<close>
  under that key, which is no alignment.
\<close>

datatype alignment_value = Align AlignmentType | Inherited string

datatype HeadingLevel = HEADING_1 | HEADING_2 | HEADING_3

datatype UnderlineType = single

record bullet_options =
  bullet_level :: nat

record numbering_options =
  reference :: string
  numbering_level :: nat

record run_options =
  run_text :: string
  run_bold :: "bool option"
  run_italics :: "bool option"
  run_strike :: "bool option"
  run_underline :: "UnderlineType option"

record paragraph_options =
  heading :: "HeadingLevel option"
  bullet :: "bullet_options option"
  numbering :: "numbering_options option"
  alignment :: "alignment_value option"

datatype docx =
  TextRun run_options
  | Paragraph "docx list" paragraph_options

text \<open>
  The keys that every object literal inherits from \<^verbatim>\<open>Object.prototype\<close>: those of the
  language standard and of its annex for web browsers.
\<close>

definition Object_prototype_keys :: "string list" where
  "Object_prototype_keys =
     [''constructor'', ''hasOwnProperty'', ''isPrototypeOf'', ''propertyIsEnumerable'',
      ''toLocaleString'', ''toString'', ''valueOf'', ''__proto__'',
      ''__defineGetter__'', ''__defineSetter__'', ''__lookupGetter__'', ''__lookupSetter__'']"

text \<open>
  \<^verbatim>\<open>alignmentMap[node.align]\<close>: the table is an object literal with four keys. Indexing it
  with one of them gives the alignment; with a key that it inherits, the inherited
  member; with any other string, \<^verbatim>\<open>undefined\<close>.
\<close>

definition alignmentMap :: "string \<Rightarrow> alignment_value option" where
  "alignmentMap a =
     (if a = ''left'' then Some (Align LEFT)
      else if a = ''center'' then Some (Align CENTER)
      else if a = ''right'' then Some (Align RIGHT)
      else if a = ''justify'' then Some (Align JUSTIFIED)
      else if a \<in> set Object_prototype_keys then Some (Inherited a)
      else None)"

text \<open>
  \<^verbatim>\<open>node.align ? alignmentMap[node.align] : AlignmentType.LEFT\<close>: an absent alignment and
  the empty string are both falsy.
\<close>

definition alignment_of :: "string option \<Rightarrow> alignment_value option" where
  "alignment_of al =
     (case al of
        None \<Rightarrow> Some (Align LEFT)
      | Some a \<Rightarrow> if a = [] then Some (Align LEFT) else alignmentMap a)"

text \<open>The run of a leaf: \<^verbatim>\<open>underline: node.underline ? { type: 'single' } : undefined\<close>.\<close>

definition text_run :: "leaf \<Rightarrow> docx" where
  "text_run l =
     TextRun \<lparr>run_text = leaf_text l, run_bold = bold l, run_italics = italic l,
       run_strike = strike l,
       run_underline = (if underline l = Some True then Some single else None)\<rparr>"

definition plain_paragraph :: "docx list \<Rightarrow> alignment_value option \<Rightarrow> docx" where
  "plain_paragraph cs al =
     Paragraph cs \<lparr>heading = None, bullet = None, numbering = None, alignment = al\<rparr>"

definition heading_paragraph :: "HeadingLevel \<Rightarrow> docx list \<Rightarrow> alignment_value option \<Rightarrow> docx" where
  "heading_paragraph h cs al =
     Paragraph cs \<lparr>heading = Some h, bullet = None, numbering = None, alignment = al\<rparr>"

definition bullet_paragraph :: "alignment_value option \<Rightarrow> docx \<Rightarrow> docx" where
  "bullet_paragraph al child =
     Paragraph [child]
       \<lparr>heading = None, bullet = Some \<lparr>bullet_level = 0\<rparr>, numbering = None, alignment = al\<rparr>"

definition numbered_paragraph :: "alignment_value option \<Rightarrow> docx \<Rightarrow> docx" where
  "numbered_paragraph al child =
     Paragraph [child]
       \<lparr>heading = None, bullet = None,
        numbering = Some \<lparr>reference = ''default-numbering'', numbering_level = 0\<rparr>,
        alignment = al\<rparr>"

text \<open>
  \<^verbatim>\<open>serializeToDocx\<close> maps every node to one object or, for the two list types, to an
  array of objects, and flattens one level (\<^verbatim>\<open>.flat()\<close>). \<open>serialize_node\<close> is the body
  of the arrow function, returning the list that \<^verbatim>\<open>.flat()\<close> splices in.
\<close>

fun serializeToDocx :: "node list \<Rightarrow> docx list"
  and serialize_node :: "node \<Rightarrow> docx list" where
  "serializeToDocx [] = []"
| "serializeToDocx (n # ns) = serialize_node n @ serializeToDocx ns"
| "serialize_node (Text l) = [text_run l]"
| "serialize_node (Element ty al cs) =
     (let children = serializeToDocx cs;
          alignment = alignment_of al
      in if ty = ''heading-one'' then [heading_paragraph HEADING_1 children alignment]
         else if ty = ''heading-two'' then [heading_paragraph HEADING_2 children alignment]
         else if ty = ''heading-three'' then [heading_paragraph HEADING_3 children alignment]
         else if ty = ''bulleted-list'' then map (bullet_paragraph alignment) children
         else if ty = ''numbered-list'' then map (numbered_paragraph alignment) children
         else [plain_paragraph children alignment])"

section \<open>Hydration of the stored document\<close>

text \<open>
  \<^verbatim>\<open>JSON.parse\<close> returns any JSON value; the annotation \<^verbatim>\<open>Descendant[]\<close> on the state
  is erased at run time, so the state holds whatever value it is given.
\<close>

datatype json =
  JNull
  | JBool bool
  | JNumber int
  | JString string
  | JArray "json list"
  | JObject "(string \<times> json) list"

datatype parse_error = SyntaxError

text \<open>\<^verbatim>\<open>defaultValue\<close> of page.tsx: one paragraph with one empty leaf.\<close>

definition defaultValue :: json where
  "defaultValue =
     JArray [JObject [(''type'', JString ''paragraph''),
                      (''children'', JArray [JObject [(''text'', JString '''')]])]]"

text \<open>
  The hydration effect of \<^verbatim>\<open>Home\<close>. \<open>JSON_parse\<close> is the built-in parser, taken as a
  parameter: it returns the value of a text or raises \<open>SyntaxError\<close>. \<open>savedContent\<close> is
  what \<^verbatim>\<open>localStorage.getItem\<close> returned, \<open>None\<close> for \<^verbatim>\<open>null\<close>; \<^verbatim>\<open>null\<close> and the empty
  string are falsy. The result is the state \<^verbatim>\<open>value\<close> after the effect, which starts as
  \<open>defaultValue\<close>, or the error that leaves the effect.
\<close>

definition hydrate :: "(string \<Rightarrow> parse_error + json) \<Rightarrow> string option \<Rightarrow> parse_error + json" where
  "hydrate JSON_parse savedContent =
     (case savedContent of
        None \<Rightarrow> Inr defaultValue
      | Some s \<Rightarrow>
          if s = [] then Inr defaultValue
          else (case JSON_parse s of
                  Inl e \<Rightarrow> Inl e
                | Inr v \<Rightarrow> Inr v))"

text \<open>
  The values of \<^verbatim>\<open>JSON.parse\<close> on the stored texts used as examples below: an empty
  object, a number, the stored form of the default document, and a text cut off after
  its first character. No other text is given to it in this theory.
\<close>

definition JSON_parse_examples :: "string \<Rightarrow> parse_error + json" where
  "JSON_parse_examples s =
     (if s = ''{}'' then Inr (JObject [])
      else if s = ''42'' then Inr (JNumber 42)
      else if s = ''[{\"type\":\"paragraph\",\"children\":[{\"text\":\"\"}]}]'' then Inr defaultValue
      else Inl SyntaxError)"

section \<open>The editor: selection and the host library's primitives\<close>

text \<open>
  The toolbar's commands and queries work on the editor of the host library (Slate):
  its document \<^verbatim>\<open>editor.children\<close>, its selection \<^verbatim>\<open>editor.selection\<close>, which is
  \<^verbatim>\<open>null\<close> when nothing is selected, and \<^verbatim>\<open>editor.marks\<close>, the marks that are pending
  for the text typed next at a collapsed selection, \<^verbatim>\<open>null\<close> when none are pending. The
  library is not part of the repository; its primitives are modelled below from
  sections 3 and 4 of the specification and, where the specification leaves the
  behaviour to the library, from the behaviour of the library with its default options.

  A point of a selection is a position in the text. It is given here by the block that
  holds it, counted in document order among the blocks that hold text (the elements all
  of whose children are leaves), and by the number of characters before it in that
  block. The library's pairs of a path and an offset denote the same positions. Counting
  blocks in document order keeps a point on its text when a command wraps or unwraps
  blocks or splits and merges leaves, which is how the library carries the selection
  through a command, and what applying a command again over the same selection refers
  to.

  The library has two points for a position between two leaves of a block: the end of
  the earlier leaf and the start of the later one. The queries and commands of the
  toolbar come out the same for both, with one exception, \<^verbatim>\<open>Editor.unhangRange\<close>, which
  tests the offset within the leaf. A point here stands for the library's point at the
  end of the earlier leaf, so that the offset within the leaf is 0 only at the start of
  a block.
\<close>

record point =
  block :: nat
  offset :: nat

record selection_range =
  anchor :: point
  focus :: point

record editor =
  children :: "node list"
  selection :: "selection_range option"
  marks :: "EditorMarks option"

fun is_text :: "node \<Rightarrow> bool" where
  "is_text (Text l) = True"
| "is_text (Element ty al cs) = False"

text \<open>The number of text-holding blocks in a node, and in a list of nodes.\<close>

fun blocks_in :: "node \<Rightarrow> nat"
  and blocks_in_list :: "node list \<Rightarrow> nat" where
  "blocks_in (Text l) = 0"
| "blocks_in (Element ty al cs) = (if list_all is_text cs then 1 else blocks_in_list cs)"
| "blocks_in_list [] = 0"
| "blocks_in_list (n # ns) = blocks_in n + blocks_in_list ns"

text \<open>The text-holding blocks of a document, in document order.\<close>

fun text_blocks :: "node \<Rightarrow> node list"
  and text_blocks_list :: "node list \<Rightarrow> node list" where
  "text_blocks (Text l) = []"
| "text_blocks (Element ty al cs) =
     (if list_all is_text cs then [Element ty al cs] else text_blocks_list cs)"
| "text_blocks_list [] = []"
| "text_blocks_list (n # ns) = text_blocks n @ text_blocks_list ns"

fun leaves_of :: "node list \<Rightarrow> leaf list" where
  "leaves_of [] = []"
| "leaves_of (Text l # ns) = l # leaves_of ns"
| "leaves_of (Element ty al cs # ns) = leaves_of ns"

definition text_length :: "leaf list \<Rightarrow> nat" where
  "text_length ls = sum_list (map (\<lambda>l. length (leaf_text l)) ls)"

fun block_leaves :: "node \<Rightarrow> leaf list" where
  "block_leaves (Text l) = [l]"
| "block_leaves (Element ty al cs) = leaves_of cs"

subsection \<open>Ranges\<close>

definition point_le :: "point \<Rightarrow> point \<Rightarrow> bool" where
  "point_le p q = (block p < block q \<or> (block p = block q \<and> offset p \<le> offset q))"

text \<open>\<^verbatim>\<open>Range.edges\<close>: the earlier and the later point of a range.\<close>

definition range_start :: "selection_range \<Rightarrow> point" where
  "range_start r = (if point_le (anchor r) (focus r) then anchor r else focus r)"

definition range_end :: "selection_range \<Rightarrow> point" where
  "range_end r = (if point_le (anchor r) (focus r) then focus r else anchor r)"

definition first_block :: "selection_range \<Rightarrow> nat" where
  "first_block r = block (range_start r)"

definition last_block :: "selection_range \<Rightarrow> nat" where
  "last_block r = block (range_end r)"

definition end_of_block :: "editor \<Rightarrow> nat \<Rightarrow> point" where
  "end_of_block e b =
     (let bs = text_blocks_list (children e)
      in \<lparr>block = b,
          offset = (if b < length bs then text_length (block_leaves (bs ! b)) else 0)\<rparr>)"

text \<open>
  A range hangs when it is not collapsed, starts at the very start of a block and ends
  at the very start of a later block, so that it selects the break before that block
  but no character of it. These are the ranges for which \<^verbatim>\<open>Editor.unhangRange\<close> does not
  return at once: both offsets are 0, and the leaf of the end has no leaf before it.
\<close>

definition hanging :: "selection_range \<Rightarrow> bool" where
  "hanging r =
     (range_start r \<noteq> range_end r \<and> offset (range_start r) = 0 \<and> offset (range_end r) = 0)"

text \<open>
  Modelled from the spec: \<^verbatim>\<open>Editor.unhangRange\<close> of the host library, which is not in
  the repository (section 4.2 and the glossary). The end of a hanging range moves back
  to the end of the block before, and the range runs forward from its start to there.
  The library leaves every other range as it is, also one that ends at the start of a
  block but starts inside a block.
\<close>

definition unhangRange :: "editor \<Rightarrow> selection_range \<Rightarrow> selection_range" where
  "unhangRange e r =
     (if hanging r
      then \<lparr>anchor = range_start r, focus = end_of_block e (block (range_end r) - 1)\<rparr>
      else r)"

subsection \<open>Editor.nodes\<close>

text \<open>
  Whether a node holds one of the blocks \<open>lo..hi\<close>, when \<open>k\<close> text-holding blocks come
  before it in the document.
\<close>

definition in_blocks :: "nat \<Rightarrow> nat \<Rightarrow> nat \<Rightarrow> node \<Rightarrow> bool" where
  "in_blocks lo hi k n = (k \<le> hi \<and> lo < k + blocks_in n)"

text \<open>
  Modelled from the spec: \<^verbatim>\<open>Editor.nodes\<close> of the host library, which is not in the
  repository (section 4.2, "block node within the range"). It yields the elements of
  the document that hold at least one block of the range, the text-holding blocks and
  the containers around them, each container before its children, and of these the
  ones that satisfy \<open>match\<close>. Every match of the toolbar requires
  \<^verbatim>\<open>SlateElement.isElement\<close>, so leaves are not listed.
\<close>

fun nodes_in :: "nat \<Rightarrow> nat \<Rightarrow> nat \<Rightarrow> node \<Rightarrow> node list"
  and nodes_in_list :: "nat \<Rightarrow> nat \<Rightarrow> nat \<Rightarrow> node list \<Rightarrow> node list" where
  "nodes_in lo hi k (Text l) = []"
| "nodes_in lo hi k (Element ty al cs) =
     (if in_blocks lo hi k (Element ty al cs)
      then Element ty al cs # (if list_all is_text cs then [] else nodes_in_list lo hi k cs)
      else [])"
| "nodes_in_list lo hi k [] = []"
| "nodes_in_list lo hi k (n # ns) =
     nodes_in lo hi k n @ nodes_in_list lo hi (k + blocks_in n) ns"

definition Editor_nodes :: "editor \<Rightarrow> selection_range \<Rightarrow> (node \<Rightarrow> bool) \<Rightarrow> node list" where
  "Editor_nodes e at match =
     filter match (nodes_in_list (first_block at) (last_block at) 0 (children e))"

subsection \<open>Transforms.setNodes\<close>

text \<open>
  The properties given to \<^verbatim>\<open>Transforms.setNodes\<close>, a \<^verbatim>\<open>Partial<SlateElement>\<close>: a key
  that is not given is \<open>None\<close>; \<^verbatim>\<open>align: undefined\<close> is \<open>Some None\<close> and removes the key.
\<close>

record element_props =
  prop_type :: "string option"
  prop_align :: "string option option"

fun apply_props :: "element_props \<Rightarrow> node \<Rightarrow> node" where
  "apply_props p (Text l) = Text l"
| "apply_props p (Element ty al cs) =
     Element (case prop_type p of None \<Rightarrow> ty | Some ty' \<Rightarrow> ty')
             (case prop_align p of None \<Rightarrow> al | Some al' \<Rightarrow> al') cs"

text \<open>\<open>map_blocks g k ns\<close> replaces the \<open>i\<close>-th text-holding block \<open>b\<close> of \<open>ns\<close> by \<open>g (k + i) b\<close>.\<close>

fun map_block :: "(nat \<Rightarrow> node \<Rightarrow> node) \<Rightarrow> nat \<Rightarrow> node \<Rightarrow> node"
  and map_blocks :: "(nat \<Rightarrow> node \<Rightarrow> node) \<Rightarrow> nat \<Rightarrow> node list \<Rightarrow> node list" where
  "map_block g k (Text l) = Text l"
| "map_block g k (Element ty al cs) =
     (if list_all is_text cs then g k (Element ty al cs)
      else Element ty al (map_blocks g k cs))"
| "map_blocks g k [] = []"
| "map_blocks g k (n # ns) = map_block g k n # map_blocks g (k + blocks_in n) ns"

definition selected :: "selection_range \<Rightarrow> nat \<Rightarrow> bool" where
  "selected r i = (first_block r \<le> i \<and> i \<le> last_block r)"

text \<open>
  Modelled from the spec: \<^verbatim>\<open>Transforms.setNodes\<close> of the host library, which is not in
  the repository, called without options (\<open>setProperties\<close> of section 4.1, applied as
  in section 4.3). With its default \<^verbatim>\<open>hanging: false\<close> the library first unhangs the
  selection; the properties are then merged into every text-holding block of the unhung
  selection. A block at whose start a hanging selection ends is not set. Without a
  selection nothing changes.
\<close>

definition setNodes :: "editor \<Rightarrow> element_props \<Rightarrow> editor" where
  "setNodes e p =
     (case selection e of
        None \<Rightarrow> e
      | Some sel \<Rightarrow>
          (let at = unhangRange e sel
           in e\<lparr>children :=
                  map_blocks (\<lambda>i n. if selected at i then apply_props p n else n) 0 (children e)\<rparr>))"

subsection \<open>Transforms.unwrapNodes and Transforms.wrapNodes\<close>

text \<open>
  \<open>span_blocks p k ns\<close> splits \<open>ns\<close> after its longest prefix of nodes that satisfy \<open>p\<close>,
  where \<open>p\<close> is given the number of text-holding blocks before the node and the number
  in it.
\<close>

fun span_blocks :: "(nat \<Rightarrow> nat \<Rightarrow> bool) \<Rightarrow> nat \<Rightarrow> node list \<Rightarrow> node list \<times> node list" where
  "span_blocks p k [] = ([], [])"
| "span_blocks p k (n # ns) =
     (if p k (blocks_in n)
      then (n # fst (span_blocks p (k + blocks_in n) ns), snd (span_blocks p (k + blocks_in n) ns))
      else ([], n # ns))"

text \<open>
  The siblings \<open>ns\<close> in three parts: those that end before block \<open>lo\<close>, those that hold
  a block of \<open>lo..hi\<close>, and those that start after block \<open>hi\<close>.
\<close>

definition before_sel :: "nat \<Rightarrow> nat \<Rightarrow> node list \<Rightarrow> node list" where
  "before_sel lo k ns = fst (span_blocks (\<lambda>k c. k + c \<le> lo) k ns)"

definition from_sel :: "nat \<Rightarrow> nat \<Rightarrow> node list \<Rightarrow> node list" where
  "from_sel lo k ns = snd (span_blocks (\<lambda>k c. k + c \<le> lo) k ns)"

definition in_sel :: "nat \<Rightarrow> nat \<Rightarrow> nat \<Rightarrow> node list \<Rightarrow> node list" where
  "in_sel lo hi k ns =
     fst (span_blocks (\<lambda>k c. k \<le> hi) (k + blocks_in_list (before_sel lo k ns)) (from_sel lo k ns))"

definition after_sel :: "nat \<Rightarrow> nat \<Rightarrow> nat \<Rightarrow> node list \<Rightarrow> node list" where
  "after_sel lo hi k ns =
     snd (span_blocks (\<lambda>k c. k \<le> hi) (k + blocks_in_list (before_sel lo k ns)) (from_sel lo k ns))"

text \<open>A container with the given children, or nothing when no child is left for it.\<close>

definition container :: "string \<Rightarrow> string option \<Rightarrow> node list \<Rightarrow> node list" where
  "container ty al cs = (if cs = [] then [] else [Element ty al cs])"

text \<open>
  Modelled from the spec: \<^verbatim>\<open>Transforms.unwrapNodes\<close> of the host library, which is not
  in the repository, with \<^verbatim>\<open>split: true\<close> (\<open>unwrap\<close> of section 4.1). The library does
  not unhang the selection here: the blocks of the selection are those from the block of
  its start to the block of its end. Every container that matches and encloses one of
  them, the innermost one where matching containers are nested, is removed around its
  selected children: they are spliced into the parent in its place, in order. The
  children before and after the selection stay in containers of their own with the type
  and alignment of the one that was split; a side without children leaves no container.
\<close>

fun unwrap_node :: "(node \<Rightarrow> bool) \<Rightarrow> nat \<Rightarrow> nat \<Rightarrow> nat \<Rightarrow> node \<Rightarrow> node list"
  and unwrap_list :: "(node \<Rightarrow> bool) \<Rightarrow> nat \<Rightarrow> nat \<Rightarrow> nat \<Rightarrow> node list \<Rightarrow> node list" where
  "unwrap_node m lo hi k (Text l) = [Text l]"
| "unwrap_node m lo hi k (Element ty al cs) =
     (if list_all is_text cs then [Element ty al cs]
      else if m (Element ty al cs) \<and> in_blocks lo hi k (Element ty al cs)
              \<and> filter m (nodes_in_list lo hi k cs) = []
      then container ty al (before_sel lo k cs) @ in_sel lo hi k cs
             @ container ty al (after_sel lo hi k cs)
      else [Element ty al (unwrap_list m lo hi k cs)])"
| "unwrap_list m lo hi k [] = []"
| "unwrap_list m lo hi k (n # ns) =
     unwrap_node m lo hi k n @ unwrap_list m lo hi (k + blocks_in n) ns"

definition unwrapNodes :: "editor \<Rightarrow> (node \<Rightarrow> bool) \<Rightarrow> editor" where
  "unwrapNodes e match =
     (case selection e of
        None \<Rightarrow> e
      | Some sel \<Rightarrow>
          e\<lparr>children := unwrap_list match (first_block sel) (last_block sel) 0 (children e)\<rparr>)"

text \<open>
  Whether the selected blocks of the siblings \<open>ns\<close> all lie in one of them, a container
  that holds blocks.
\<close>

definition in_one_container :: "nat \<Rightarrow> nat \<Rightarrow> nat \<Rightarrow> node list \<Rightarrow> bool" where
  "in_one_container lo hi k ns =
     (case in_sel lo hi k ns of
        [Element ty al cs] \<Rightarrow> \<not> list_all is_text cs
      | _ \<Rightarrow> False)"

text \<open>
  Modelled from the spec: \<^verbatim>\<open>Transforms.wrapNodes\<close> of the host library, which is not in
  the repository (\<open>wrap\<close> of section 4.1). The library does not unhang the selection
  here either. A new container of the given type, without alignment, is inserted
  around the contiguous siblings that hold the blocks of the selection, which become
  its children. The siblings are taken at the level where the selected
  blocks have their common parent: while they all lie in one container, the wrap
  happens among its children. The library raises no error for selected blocks that are
  not siblings: it wraps the siblings that hold them.
\<close>

fun wrap_list :: "string \<Rightarrow> nat \<Rightarrow> nat \<Rightarrow> nat \<Rightarrow> node list \<Rightarrow> node list"
  and wrap_each :: "string \<Rightarrow> nat \<Rightarrow> nat \<Rightarrow> nat \<Rightarrow> node list \<Rightarrow> node list"
  and wrap_node :: "string \<Rightarrow> nat \<Rightarrow> nat \<Rightarrow> nat \<Rightarrow> node \<Rightarrow> node" where
  "wrap_list ty' lo hi k ns =
     (if in_one_container lo hi k ns then wrap_each ty' lo hi k ns
      else if in_sel lo hi k ns = [] then ns
      else before_sel lo k ns @ [Element ty' None (in_sel lo hi k ns)] @ after_sel lo hi k ns)"
| "wrap_each ty' lo hi k [] = []"
| "wrap_each ty' lo hi k (n # ns) =
     wrap_node ty' lo hi k n # wrap_each ty' lo hi (k + blocks_in n) ns"
| "wrap_node ty' lo hi k (Text l) = Text l"
| "wrap_node ty' lo hi k (Element ty al cs) =
     (if in_blocks lo hi k (Element ty al cs) \<and> \<not> list_all is_text cs
      then Element ty al (wrap_list ty' lo hi k cs)
      else Element ty al cs)"

definition wrapNodes :: "editor \<Rightarrow> string \<Rightarrow> editor" where
  "wrapNodes e ty' =
     (case selection e of
        None \<Rightarrow> e
      | Some sel \<Rightarrow>
          e\<lparr>children := wrap_list ty' (first_block sel) (last_block sel) 0 (children e)\<rparr>)"

section \<open>The toolbar's queries and commands\<close>

fun has_type :: "string \<Rightarrow> node \<Rightarrow> bool" where
  "has_type format (Text l) = False"
| "has_type format (Element ty al cs) = (ty = format)"


text \<open>
  \<^verbatim>\<open>isBlockActive\<close>: false without a selection; otherwise whether \<^verbatim>\<open>Editor.nodes\<close>, over
  the unhung selection, yields an element of the given type.
\<close>

definition isBlockActive :: "editor \<Rightarrow> string \<Rightarrow> bool" where
  "isBlockActive e format =
     (case selection e of
        None \<Rightarrow> False
      | Some sel \<Rightarrow> Editor_nodes e (unhangRange e sel) (has_type format) \<noteq> [])"

text \<open>\<^verbatim>\<open>getCurrentHeading\<close>: the first heading type that is active, in the order of the source.\<close>

definition getCurrentHeading :: "editor \<Rightarrow> string" where
  "getCurrentHeading e =
     (if isBlockActive e ''heading-one'' then ''H1''
      else if isBlockActive e ''heading-two'' then ''H2''
      else if isBlockActive e ''heading-three'' then ''H3''
      else ''Normal'')"



definition is_list_type :: "string \<Rightarrow> bool" where
  "is_list_type ty = (ty \<in> set [''bulleted-list'', ''numbered-list''])"

fun is_list_container :: "node \<Rightarrow> bool" where
  "is_list_container (Text l) = False"
| "is_list_container (Element ty al cs) = is_list_type ty"

text \<open>
  \<^verbatim>\<open>toggleBlock\<close>: the query first, on the document as it is; then the list containers
  of the selection are unwrapped, the type of the selected blocks is set, and for a
  list type that was not active the blocks are wrapped in a new container of that type.
  The source unhangs the selection for the query only; of the three transformations
  that follow, the library unhangs it for \<^verbatim>\<open>setNodes\<close> and not for the other two.
\<close>

definition toggleBlock :: "string \<Rightarrow> editor \<Rightarrow> editor" where
  "toggleBlock format e =
     (let isActive = isBlockActive e format;
          isList = is_list_type format;
          e1 = unwrapNodes e is_list_container;
          newProperties =
            \<lparr>prop_type = Some (if isActive then ''paragraph''
                                else if isList then ''list-item'' else format),
             prop_align = None\<rparr>;
          e2 = setNodes e1 newProperties
      in if \<not> isActive \<and> isList then wrapNodes e2 format else e2)"

subsection \<open>Marks\<close>

text \<open>The mark names, \<^verbatim>\<open>keyof Omit<CustomText, 'text'>\<close>.\<close>

datatype mark = Bold | Italic | Underline | Strike | Code

text \<open>\<^verbatim>\<open>marks[format]\<close> and \<^verbatim>\<open>{ ...marks, [key]: value }\<close>, on a set of marks or on a leaf.\<close>

fun get_mark :: "mark \<Rightarrow> 'a EditorMarks_scheme \<Rightarrow> bool option" where
  "get_mark Bold l = bold l"
| "get_mark Italic l = italic l"
| "get_mark Underline l = underline l"
| "get_mark Strike l = strike l"
| "get_mark Code l = code l"

fun set_mark :: "mark \<Rightarrow> bool \<Rightarrow> 'a EditorMarks_scheme \<Rightarrow> 'a EditorMarks_scheme" where
  "set_mark Bold v l = l\<lparr>bold := Some v\<rparr>"
| "set_mark Italic v l = l\<lparr>italic := Some v\<rparr>"
| "set_mark Underline v l = l\<lparr>underline := Some v\<rparr>"
| "set_mark Strike v l = l\<lparr>strike := Some v\<rparr>"
| "set_mark Code v l = l\<lparr>code := Some v\<rparr>"

text \<open>The marks of a leaf, \<^verbatim>\<open>const { text, ...rest } = node\<close>, and a leaf of given marks and text.\<close>

definition marks_of :: "leaf \<Rightarrow> EditorMarks" where
  "marks_of l =
     \<lparr>bold = bold l, italic = italic l, underline = underline l, strike = strike l, code = code l\<rparr>"

definition with_text :: "EditorMarks \<Rightarrow> string \<Rightarrow> leaf" where
  "with_text ms s =
     \<lparr>bold = bold ms, italic = italic ms, underline = underline ms, strike = strike ms,
      code = code ms, leaf_text = s\<rparr>"

text \<open>No mark at all, \<^verbatim>\<open>{}\<close>.\<close>

definition no_marks :: EditorMarks where
  "no_marks = \<lparr>bold = None, italic = None, underline = None, strike = None, code = None\<rparr>"

text \<open>
  The leaf that holds the character before the given offset of a block: the leaf whose
  marks a character typed there takes. At offset 0 this is the first leaf, and an offset
  past the end of the block gives the last leaf.
\<close>

fun leaf_before :: "nat \<Rightarrow> leaf list \<Rightarrow> leaf option" where
  "leaf_before off [] = None"
| "leaf_before off (l # ls) =
     (if off \<le> length (leaf_text l) \<or> ls = [] then Some l
      else leaf_before (off - length (leaf_text l)) ls)"

text \<open>The leaf that holds the character after the given offset of a block, if there is one.\<close>

fun leaf_at :: "nat \<Rightarrow> leaf list \<Rightarrow> leaf option" where
  "leaf_at off [] = None"
| "leaf_at off (l # ls) =
     (if off < length (leaf_text l) then Some l
      else leaf_at (off - length (leaf_text l)) ls)"

text \<open>
  The first text node of a range that is not collapsed, as \<^verbatim>\<open>Editor.marks\<close> finds it. It
  is the leaf that holds the first character after the start of the range. When the
  start lies at the end of its block (which it also does in a block without text), the
  library steps to the next position, the start of the next block, and the node is the
  first leaf of that block.
\<close>

definition first_text_node :: "editor \<Rightarrow> selection_range \<Rightarrow> leaf option" where
  "first_text_node e r =
     (let bs = text_blocks_list (children e);
          b = block (range_start r);
          off = offset (range_start r)
      in if b < length bs
         then (if off < text_length (block_leaves (bs ! b))
               then leaf_at off (block_leaves (bs ! b))
               else if b + 1 < length bs
               then (case block_leaves (bs ! (b + 1)) of [] \<Rightarrow> None | l # ls \<Rightarrow> Some l)
               else leaf_before off (block_leaves (bs ! b)))
         else None)"

text \<open>
  Modelled from the spec: \<^verbatim>\<open>Editor.marks\<close> of the host library, which is not in the
  repository (\<open>isMarkActiveAtFocus\<close> of section 4.2). \<^verbatim>\<open>null\<close> without a selection.
  Pending marks, when there are any, are the answer. Otherwise a selection that is not
  collapsed has the marks of its first text node, whatever the marks of the text after
  it, and a collapsed one has the marks of the leaf that holds the character before it.
  A selection that does not lie in the document has no marks.
\<close>

definition Editor_marks :: "editor \<Rightarrow> EditorMarks option" where
  "Editor_marks e =
     (case selection e of
        None \<Rightarrow> None
      | Some sel \<Rightarrow>
          (case marks e of
             Some ms \<Rightarrow> Some ms
           | None \<Rightarrow>
               (let bs = text_blocks_list (children e);
                    node =
                      (if anchor sel \<noteq> focus sel then first_text_node e sel
                       else if block (anchor sel) < length bs
                       then leaf_before (offset (anchor sel)) (block_leaves (bs ! block (anchor sel)))
                       else None)
                in Some (case node of None \<Rightarrow> no_marks | Some l \<Rightarrow> marks_of l))))"

text \<open>\<^verbatim>\<open>isFormatActive\<close>: \<^verbatim>\<open>marks ? marks[format] === true : false\<close>.\<close>

definition isFormatActive :: "editor \<Rightarrow> mark \<Rightarrow> bool" where
  "isFormatActive e format =
     (case Editor_marks e of
        None \<Rightarrow> False
      | Some ms \<Rightarrow> get_mark format ms = Some True)"

text \<open>
  The part of a block that a selection covers: from \<open>sel_from\<close> to \<open>sel_to\<close>, in
  characters from the start of the block. A block between the first and the last
  block of the selection is covered as a whole.
\<close>

definition sel_from :: "selection_range \<Rightarrow> nat \<Rightarrow> nat" where
  "sel_from r i = (if i = first_block r then offset (range_start r) else 0)"

definition sel_to :: "selection_range \<Rightarrow> nat \<Rightarrow> node \<Rightarrow> nat" where
  "sel_to r i b =
     (if i = last_block r then offset (range_end r) else text_length (block_leaves b))"

text \<open>
  The text of a block, character by character, each character with the marks of its
  leaf.
\<close>

fun chars_of :: "leaf list \<Rightarrow> (char \<times> EditorMarks) list" where
  "chars_of [] = []"
| "chars_of (l # ls) = map (\<lambda>c. (c, marks_of l)) (leaf_text l) @ chars_of ls"

text \<open>\<open>f\<close> applied to the marks of the characters \<open>from..<to\<close>; the first one has number \<open>pos\<close>.\<close>

fun set_range ::
  "(EditorMarks \<Rightarrow> EditorMarks) \<Rightarrow> nat \<Rightarrow> nat \<Rightarrow> nat \<Rightarrow> (char \<times> EditorMarks) list
     \<Rightarrow> (char \<times> EditorMarks) list" where
  "set_range f from to pos [] = []"
| "set_range f from to pos (x # xs) =
     (fst x, if from \<le> pos \<and> pos < to then f (snd x) else snd x)
       # set_range f from to (Suc pos) xs"

text \<open>
  The leaves of a text in the library's normal form: every longest run of characters
  with the same marks is one leaf.
\<close>

fun runs :: "(char \<times> EditorMarks) list \<Rightarrow> leaf list" where
  "runs [] = []"
| "runs (x # xs) =
     (case runs xs of
        [] \<Rightarrow> [with_text (snd x) [fst x]]
      | l # ls \<Rightarrow>
          if marks_of l = snd x then l\<lparr>leaf_text := fst x # leaf_text l\<rparr> # ls
          else with_text (snd x) [fst x] # l # ls)"

text \<open>
  What \<^verbatim>\<open>Transforms.setNodes\<close> with \<^verbatim>\<open>match: Text.isText, split: true\<close> makes of the leaves
  of one block of which the range covers the characters \<open>from..<to\<close>, once the library
  has normalised the block again. A leaf that a boundary of the range cuts is split,
  the mark is set to the given value on every leaf within the range, also when the
  value is \<^verbatim>\<open>false\<close>, and normalisation then merges neighbouring leaves with equal marks
  and removes leaves without text. The outcome is that the covered characters have the
  mark and the leaves are the runs of equal marks. The library normalises only a block
  in which it changed something: where every covered character had the mark with that
  value already, the leaves stay as they are. In a block without text the range covers
  the empty leaf when it starts at the start of the block.
\<close>

definition mark_leaves :: "mark \<Rightarrow> bool \<Rightarrow> nat \<Rightarrow> nat \<Rightarrow> leaf list \<Rightarrow> leaf list" where
  "mark_leaves key v from to ls =
     (if text_length ls = 0 then (if from = 0 then map (set_mark key v) ls else ls)
      else if set_range (set_mark key v) from to 0 (chars_of ls) = chars_of ls then ls
      else runs (set_range (set_mark key v) from to 0 (chars_of ls)))"

fun mark_block :: "mark \<Rightarrow> bool \<Rightarrow> nat \<Rightarrow> nat \<Rightarrow> node \<Rightarrow> node" where
  "mark_block key v from to (Text l) = Text l"
| "mark_block key v from to (Element ty al cs) =
     Element ty al (map Text (mark_leaves key v from to (leaves_of cs)))"

text \<open>The mark set to the given value on everything that the range \<open>at\<close> covers of a document.\<close>

definition mark_selection :: "mark \<Rightarrow> bool \<Rightarrow> selection_range \<Rightarrow> node list \<Rightarrow> node list" where
  "mark_selection key v at ns =
     map_blocks
       (\<lambda>i b. if selected at i then mark_block key v (sel_from at i) (sel_to at i b) b else b)
       0 ns"

text \<open>
  Modelled from the spec: \<^verbatim>\<open>Editor.addMark\<close> of the host library, which is not in the
  repository (\<open>ToggleMark\<close> of section 4.3). Without a selection nothing happens. With
  a collapsed selection the document does not change: the mark is added to the marks at
  the selection and the result is stored as the pending marks. With a selection that
  is not collapsed the library calls \<^verbatim>\<open>Transforms.setNodes\<close> on the leaves: the selection
  is unhung, the mark is set on the leaves that the unhung selection covers, and the
  unhung selection becomes the selection. Setting a selection that differs from the
  one before clears the pending marks.
\<close>

definition addMark :: "editor \<Rightarrow> mark \<Rightarrow> bool \<Rightarrow> editor" where
  "addMark e key v =
     (case selection e of
        None \<Rightarrow> e
      | Some sel \<Rightarrow>
          if anchor sel = focus sel
          then e\<lparr>marks :=
                   Some (set_mark key v
                           (case Editor_marks e of None \<Rightarrow> no_marks | Some ms \<Rightarrow> ms))\<rparr>
          else (let at = unhangRange e sel
                in e\<lparr>children := mark_selection key v at (children e),
                     selection := Some at,
                     marks := (if at = sel then marks e else None)\<rparr>))"

text \<open>\<^verbatim>\<open>toggleFormat\<close>: \<^verbatim>\<open>Editor.addMark(editor, format, !isActive)\<close>.\<close>

definition toggleFormat :: "mark \<Rightarrow> editor \<Rightarrow> editor" where
  "toggleFormat format e =
     (let isActive = isFormatActive e format
      in addMark e format (\<not> isActive))"

text \<open>The element types that the toolbar declares, \<^verbatim>\<open>CustomElement['type']\<close>.\<close>

definition recognized_types :: "string list" where
  "recognized_types =
     [''paragraph'', ''heading-one'', ''heading-two'', ''heading-three'',
      ''bulleted-list'', ''numbered-list'', ''list-item'', ''code-block'']"

section \<open>Shapes of documents that the properties below speak about\<close>

text \<open>A text-holding block: an element whose children are all leaves.\<close>

fun is_text_block :: "node \<Rightarrow> bool" where
  "is_text_block (Text l) = False"
| "is_text_block (Element ty al cs) = list_all is_text cs"


fun is_list_item :: "node \<Rightarrow> bool" where
  "is_list_item (Text l) = False"
| "is_list_item (Element ty al cs) = (ty = ''list-item'' \<and> list_all is_text cs)"

text \<open>
  Invariant 1 of the specification, first half: no list item outside a list container.
  \<open>inside\<close> says whether the parent of the node is a list container.
\<close>

fun no_stray_item :: "bool \<Rightarrow> node \<Rightarrow> bool" where
  "no_stray_item inside (Text l) = True"
| "no_stray_item inside (Element ty al cs) =
     ((if ty = ''list-item'' then inside else True)
      \<and> list_all (no_stray_item (is_list_type ty)) cs)"

text \<open>
  The library's normal form of the leaves of a block: one leaf, or leaves that all
  hold text and of which no two neighbours have the same marks.
\<close>

fun normal_leaves :: "leaf list \<Rightarrow> bool" where
  "normal_leaves [] = False"
| "normal_leaves [l] = True"
| "normal_leaves (l # l' # ls) =
     (leaf_text l \<noteq> [] \<and> leaf_text l' \<noteq> [] \<and> marks_of l \<noteq> marks_of l'
      \<and> normal_leaves (l' # ls))"

text \<open>
  The marks of what a range covers of a block, of which it covers the characters
  \<open>from..<to\<close>: the marks of every covered character, and in a block without text the
  marks of its leaf when the range starts at the start of the block.
\<close>

definition covered_marks :: "nat \<Rightarrow> nat \<Rightarrow> leaf list \<Rightarrow> EditorMarks list" where
  "covered_marks from to ls =
     (if text_length ls = 0 then (if from = 0 then map marks_of ls else [])
      else map snd (take (to - from) (drop from (chars_of ls))))"

text \<open>A point lies in the document: in one of its blocks, not after the end of its text.\<close>

definition in_document :: "editor \<Rightarrow> point \<Rightarrow> bool" where
  "in_document e p =
     (block p < length (text_blocks_list (children e))
      \<and> offset p \<le> text_length (block_leaves (text_blocks_list (children e) ! block p)))"

text \<open>
  Every block of the selection \<open>r\<close> has its leaves in normal form, and everything that
  the selection covers has the mark \<open>m\<close> stored with the value \<open>v\<close>.
\<close>

definition marks_uniform :: "mark \<Rightarrow> bool \<Rightarrow> editor \<Rightarrow> selection_range \<Rightarrow> bool" where
  "marks_uniform m v e r =
     list_all
       (\<lambda>(i, b). if selected r i
                  then normal_leaves (block_leaves b)
                       \<and> list_all (\<lambda>ms. get_mark m ms = Some v)
                            (covered_marks (sel_from r i) (sel_to r i b) (block_leaves b))
                  else True)
       (zip [0..<length (text_blocks_list (children e))] (text_blocks_list (children e)))"


text \<open>
  The last block of the selection once it is unhung: the block before the one at whose
  start a hanging selection ends.
\<close>

definition unhung_last :: "selection_range \<Rightarrow> nat" where
  "unhung_last r = (if hanging r then last_block r - 1 else last_block r)"




fun with_type :: "string \<Rightarrow> node \<Rightarrow> node" where
  "with_type ty' (Text l) = Text l"
| "with_type ty' (Element ty al cs) = Element ty' al cs"


section \<open>The specification's wording, where it is compared with the code\<close>







section \<open>Example documents\<close>

definition para :: "string option \<Rightarrow> string \<Rightarrow> node" where
  "para al s = Element ''paragraph'' al [Text (plain s)]"

definition list_item :: "string \<Rightarrow> node" where
  "list_item s = Element ''list-item'' None [Text (plain s)]"

definition select :: "nat \<Rightarrow> nat \<Rightarrow> nat \<Rightarrow> nat \<Rightarrow> selection_range option" where
  "select b1 o1 b2 o2 =
     Some \<lparr>anchor = \<lparr>block = b1, offset = o1\<rparr>, focus = \<lparr>block = b2, offset = o2\<rparr>\<rparr>"




text \<open>
  One paragraph with a leaf that has \<^verbatim>\<open>bold: true\<close> and a leaf that has \<^verbatim>\<open>bold: false\<close>,
  the second leaf selected.
\<close>

definition marks_example :: editor where
  "marks_example =
     \<lparr>children = [Element ''paragraph'' None
                    [Text ((plain ''Hello '')\<lparr>bold := Some True\<rparr>),
                     Text ((plain ''world'')\<lparr>bold := Some False\<rparr>)]],
      selection = select 0 6 0 11, marks = None\<rparr>"

text \<open>One paragraph with one leaf that has no mark, selected as a whole.\<close>

definition mark_example :: editor where
  "mark_example =
     \<lparr>children = [para None ''Hello''], selection = select 0 0 0 5, marks = None\<rparr>"

text \<open>A bulleted list of three items between two paragraphs, its second and third item selected.\<close>

definition list_example :: editor where
  "list_example =
     \<lparr>children = [para None ''a'',
                   Element ''bulleted-list'' None [list_item ''x'', list_item ''y'', list_item ''z''],
                   para None ''b''],
      selection = select 2 0 3 1, marks = None\<rparr>"




section \<open>Properties of the serializer\<close>

lemma serialize_leaves: "serializeToDocx (map Text ls) = map text_run ls"
  by (induction ls) simp_all

text \<open>
  C7. A single paragraph without alignment that holds the one leaf
  \<^verbatim>\<open>{text: "Hello", bold: true}\<close> is serialized to exactly one paragraph, with alignment
  \<open>LEFT\<close> and no heading or list marker, that holds exactly one run with the text
  \<^verbatim>\<open>Hello\<close> and \<^verbatim>\<open>bold: true\<close>; the other options of the run are undefined.
\<close>

theorem serialize_hello_paragraph:
  "serializeToDocx [Element ''paragraph'' None [Text ((plain ''Hello'')\<lparr>bold := Some True\<rparr>)]] =
     [Paragraph
        [TextRun \<lparr>run_text = ''Hello'', run_bold = Some True, run_italics = None,
                  run_strike = None, run_underline = None\<rparr>]
        \<lparr>heading = None, bullet = None, numbering = None, alignment = Some (Align LEFT)\<rparr>]"
  by (simp add: plain_def text_run_def plain_paragraph_def alignment_of_def)

text \<open>
  C9. A block whose type is \<^verbatim>\<open>code-block\<close>, or is none of the declared types, is
  serialized to exactly the paragraph that a block of type \<^verbatim>\<open>paragraph\<close> with the same
  children and alignment gives: one paragraph without heading or list marker. The
  serializer is a total function on the document tree, so such a block never aborts it.
\<close>

theorem serialize_falls_back_to_paragraph:
  assumes "ty = ''code-block'' \<or> ty \<notin> set recognized_types"
  shows "serializeToDocx [Element ty al cs] = serializeToDocx [Element ''paragraph'' al cs]
         \<and> serializeToDocx [Element ty al cs] = [plain_paragraph (serializeToDocx cs) (alignment_of al)]"
proof -
  have "ty \<noteq> ''heading-one''" "ty \<noteq> ''heading-two''" "ty \<noteq> ''heading-three''"
    "ty \<noteq> ''bulleted-list''" "ty \<noteq> ''numbered-list''"
    using assms by (auto simp: recognized_types_def)
  then show ?thesis by simp
qed

theorem serialize_falls_back_to_paragraph_witness:
  "serializeToDocx [Element ''code-block'' (Some ''center'') [Text (plain ''x = 1'')]] =
     serializeToDocx [Element ''paragraph'' (Some ''center'') [Text (plain ''x = 1'')]]
   \<and> serializeToDocx [Element ''code-block'' (Some ''center'') [Text (plain ''x = 1'')]] =
     [plain_paragraph [text_run (plain ''x = 1'')] (Some (Align CENTER))]
   \<and> serializeToDocx [Element ''callout'' None [Text (plain ''x = 1'')]] =
     serializeToDocx [Element ''paragraph'' None [Text (plain ''x = 1'')]]"
  using serialize_falls_back_to_paragraph [of "''code-block''" "Some ''center''" "[Text (plain ''x = 1'')]"]
    serialize_falls_back_to_paragraph [of "''callout''" None "[Text (plain ''x = 1'')]"]
  by (simp add: recognized_types_def alignment_of_def alignmentMap_def)

text \<open>
  C5. What the serializer returns for a bulleted list of three list items that hold
  leaves: three paragraphs in the order of the items, each with a bullet of level 0 and
  the alignment of the list, and none for the list itself. The only child of each of
  the three is not a run: it is the paragraph that the default branch made of the list
  item (the switch has no case for \<^verbatim>\<open>list-item\<close>), and the runs of the item are the
  children of that inner paragraph.
\<close>

theorem serialize_bulleted_list_nests_paragraphs:
  "serializeToDocx
     [Element ''bulleted-list'' al
        [Element ''list-item'' a1 (map Text ls1),
         Element ''list-item'' a2 (map Text ls2),
         Element ''list-item'' a3 (map Text ls3)]] =
   [Paragraph
      [Paragraph (map text_run ls1)
         \<lparr>heading = None, bullet = None, numbering = None, alignment = alignment_of a1\<rparr>]
      \<lparr>heading = None, bullet = Some \<lparr>bullet_level = 0\<rparr>, numbering = None,
       alignment = alignment_of al\<rparr>,
    Paragraph
      [Paragraph (map text_run ls2)
         \<lparr>heading = None, bullet = None, numbering = None, alignment = alignment_of a2\<rparr>]
      \<lparr>heading = None, bullet = Some \<lparr>bullet_level = 0\<rparr>, numbering = None,
       alignment = alignment_of al\<rparr>,
    Paragraph
      [Paragraph (map text_run ls3)
         \<lparr>heading = None, bullet = None, numbering = None, alignment = alignment_of a3\<rparr>]
      \<lparr>heading = None, bullet = Some \<lparr>bullet_level = 0\<rparr>, numbering = None,
       alignment = alignment_of al\<rparr>]"
  by (simp add: serialize_leaves bullet_paragraph_def plain_paragraph_def)

section \<open>Properties of hydration\<close>

text \<open>
  C2, as the claim states it, fails: a stored text that parses to a value that is not
  an array becomes the document as it is, and a stored text that does not parse raises.
\<close>

theorem hydrate_malformed_counterexample:
  "hydrate JSON_parse_examples (Some ''{}'') = Inr (JObject [])
   \<and> JObject [] \<noteq> defaultValue
   \<and> hydrate JSON_parse_examples (Some ''{'') = Inl SyntaxError"
  by (simp add: hydrate_def JSON_parse_examples_def defaultValue_def)

text \<open>
  C2, amended. Hydration gives the default document, without error, when nothing is
  stored or the stored text is empty. Any other stored text is given to \<^verbatim>\<open>JSON.parse\<close>
  and the outcome is taken as it is: the parsed value becomes the document without
  any check of its shape, and a \<open>SyntaxError\<close> is raised to the caller.
\<close>

theorem hydrate_unvalidated:
  "hydrate JSON_parse None = Inr defaultValue
   \<and> hydrate JSON_parse (Some []) = Inr defaultValue
   \<and> (s \<noteq> [] \<longrightarrow> hydrate JSON_parse (Some s) = JSON_parse s)"
  by (simp add: hydrate_def split: sum.splits)

theorem hydrate_unvalidated_witness:
  "hydrate JSON_parse_examples None = Inr defaultValue
   \<and> hydrate JSON_parse_examples (Some []) = Inr defaultValue
   \<and> hydrate JSON_parse_examples (Some ''42'') = Inr (JNumber 42)"
  using hydrate_unvalidated [of JSON_parse_examples "''42''"]
  by (simp add: JSON_parse_examples_def)

section \<open>Properties of the primitives\<close>

lemma blocks_in_list_append: "blocks_in_list (xs @ ys) = blocks_in_list xs + blocks_in_list ys"
  by (induction xs) simp_all

lemma length_text_blocks:
  "length (text_blocks n) = blocks_in n"
  "length (text_blocks_list ns) = blocks_in_list ns"
  by (induction n and ns rule: blocks_in_blocks_in_list.induct) simp_all

lemma nodes_in_list_append:
  "nodes_in_list lo hi k (xs @ ys) =
     nodes_in_list lo hi k xs @ nodes_in_list lo hi (k + blocks_in_list xs) ys"
  by (induction xs arbitrary: k) (simp_all add: add.assoc)

lemma nodes_in_outside: "hi < k \<or> k + blocks_in n \<le> lo \<Longrightarrow> nodes_in lo hi k n = []"
  by (cases n) (auto simp: in_blocks_def)

lemma nodes_in_list_outside:
  "hi < k \<or> k + blocks_in_list ns \<le> lo \<Longrightarrow> nodes_in_list lo hi k ns = []"
  by (induction ns arbitrary: k) (auto simp: nodes_in_outside)

lemma map_blocks_append:
  "map_blocks g k (xs @ ys) = map_blocks g k xs @ map_blocks g (k + blocks_in_list xs) ys"
  by (induction xs arbitrary: k) (simp_all add: add.assoc)

lemma map_block_id:
  "(\<And>i b. k \<le> i \<Longrightarrow> i < k + blocks_in n \<Longrightarrow> g i b = b) \<Longrightarrow> map_block g k n = n"
  "(\<And>i b. k \<le> i \<Longrightarrow> i < k + blocks_in_list ns \<Longrightarrow> g i b = b) \<Longrightarrow> map_blocks g k ns = ns"
  by (induction g k n and g k ns rule: map_block_map_blocks.induct) auto

lemma unwrap_list_append:
  "unwrap_list m lo hi k (xs @ ys) = unwrap_list m lo hi k xs @ unwrap_list m lo hi (k + blocks_in_list xs) ys"
  by (induction xs arbitrary: k) (simp_all add: add.assoc)

lemma unwrap_outside:
  "hi < k \<or> k + blocks_in n \<le> lo \<Longrightarrow> unwrap_node m lo hi k n = [n]"
  "hi < k \<or> k + blocks_in_list ns \<le> lo \<Longrightarrow> unwrap_list m lo hi k ns = ns"
  by (induction m lo hi k n and m lo hi k ns rule: unwrap_node_unwrap_list.induct)
     (auto simp: in_blocks_def)

lemma text_block_count: "is_text_block n \<Longrightarrow> blocks_in n = 1"
  by (cases n) simp_all

lemma text_blocks_count: "list_all is_text_block bs \<Longrightarrow> blocks_in_list bs = length bs"
  by (induction bs) (simp_all add: text_block_count)

lemma map_blocks_text_blocks:
  "list_all is_text_block bs \<Longrightarrow> (\<And>i. k \<le> i \<Longrightarrow> i < k + length bs \<Longrightarrow> P i) \<Longrightarrow>
   map_blocks (\<lambda>i n. if P i then f n else n) k bs = map f bs"
proof (induction bs arbitrary: k)
  case Nil
  then show ?case by simp
next
  case (Cons b bs)
  from Cons.prems(1) obtain ty al cs where b: "b = Element ty al cs" "list_all is_text cs"
    by (cases b) auto
  have "P k" using Cons.prems(2) by simp
  moreover have "map_blocks (\<lambda>i n. if P i then f n else n) (Suc k) bs = map f bs"
    using Cons.prems by (intro Cons.IH) auto
  ultimately show ?case using b by simp
qed


lemma nodes_in_text_blocks:
  "list_all is_text_block bs \<Longrightarrow> set (nodes_in_list lo hi k bs) \<subseteq> set bs"
proof (induction bs arbitrary: k)
  case Nil
  then show ?case by simp
next
  case (Cons b bs)
  then show ?case by (cases b) auto
qed


lemma span_blocks_prefix:
  "(\<And>j. j < length pre \<Longrightarrow> p (k + blocks_in_list (take j pre)) (blocks_in (pre ! j))) \<Longrightarrow>
   (rest = [] \<or> \<not> p (k + blocks_in_list pre) (blocks_in (hd rest))) \<Longrightarrow>
   span_blocks p k (pre @ rest) = (pre, rest)"
proof (induction pre arbitrary: k)
  case Nil
  then show ?case by (cases rest) auto
next
  case (Cons a pre)
  have a: "p k (blocks_in a)" using Cons.prems(1)[of 0] by simp
  have "span_blocks p (k + blocks_in a) (pre @ rest) = (pre, rest)"
  proof (rule Cons.IH)
    fix j assume "j < length pre"
    then show "p (k + blocks_in a + blocks_in_list (take j pre)) (blocks_in (pre ! j))"
      using Cons.prems(1)[of "Suc j"] by (simp add: add.assoc)
  next
    show "rest = [] \<or> \<not> p (k + blocks_in a + blocks_in_list pre) (blocks_in (hd rest))"
      using Cons.prems(2) by (simp add: add.assoc)
  qed
  then show ?case using a by simp
qed


lemma blocks_in_list_take: "blocks_in_list (take j xs) \<le> blocks_in_list xs"
proof (induction xs arbitrary: j)
  case Nil
  then show ?case by simp
next
  case (Cons x xs)
  show ?case
  proof (cases j)
    case 0
    then show ?thesis by simp
  next
    case (Suc j')
    then show ?thesis using Cons.IH[of j'] by simp
  qed
qed

lemma blocks_in_list_take_Suc:
  "j < length xs \<Longrightarrow> blocks_in_list (take j xs) + blocks_in (xs ! j) = blocks_in_list (take (Suc j) xs)"
  by (simp add: take_Suc_conv_app_nth blocks_in_list_append)

lemma before_sel_exact:
  assumes "list_all is_text_block sel" "sel \<noteq> []" "lo = k + blocks_in_list pre"
  shows "before_sel lo k (pre @ sel @ post) = pre" and "from_sel lo k (pre @ sel @ post) = sel @ post"
proof -
  have "span_blocks (\<lambda>k c. k + c \<le> lo) k (pre @ (sel @ post)) = (pre, sel @ post)"
  proof (rule span_blocks_prefix)
    fix j assume j: "j < length pre"
    have "blocks_in_list (take (Suc j) pre) \<le> blocks_in_list pre"
      by (rule blocks_in_list_take)
    then show "k + blocks_in_list (take j pre) + blocks_in (pre ! j) \<le> lo"
      using blocks_in_list_take_Suc[OF j] assms(3) by simp
  next
    have "blocks_in (hd (sel @ post)) = 1"
      using assms(1,2) by (cases sel) (simp_all add: text_block_count)
    then show "sel @ post = [] \<or> \<not> k + blocks_in_list pre + blocks_in (hd (sel @ post)) \<le> lo"
      using assms(3) by simp
  qed
  then show "before_sel lo k (pre @ sel @ post) = pre" and "from_sel lo k (pre @ sel @ post) = sel @ post"
    by (simp_all add: before_sel_def from_sel_def)
qed

lemma in_sel_exact:
  assumes "list_all is_text_block sel" "sel \<noteq> []" "lo = k + blocks_in_list pre"
    "hi + 1 = lo + length sel"
  shows "in_sel lo hi k (pre @ sel @ post) = sel" and "after_sel lo hi k (pre @ sel @ post) = post"
proof -
  have "span_blocks (\<lambda>k c. k \<le> hi) lo (sel @ post) = (sel, post)"
  proof (rule span_blocks_prefix)
    fix j assume j: "j < length sel"
    have "list_all is_text_block (take j sel)"
      using assms(1) by (auto simp: list_all_iff dest: in_set_takeD)
    then have "blocks_in_list (take j sel) = j"
      using j by (simp add: text_blocks_count)
    then show "lo + blocks_in_list (take j sel) \<le> hi"
      using j assms(4) by simp
  next
    show "post = [] \<or> \<not> lo + blocks_in_list sel \<le> hi"
      using assms(1,4) by (simp add: text_blocks_count)
  qed
  then show "in_sel lo hi k (pre @ sel @ post) = sel" and "after_sel lo hi k (pre @ sel @ post) = post"
    using before_sel_exact[OF assms(1-3), of post] assms(3)
    by (simp_all add: in_sel_def after_sel_def)
qed

lemma not_all_text: "list_all is_text_block sel \<Longrightarrow> sel \<noteq> [] \<Longrightarrow> \<not> list_all is_text (its1 @ sel @ its2)"
  by (cases sel) (auto elim: is_text_block.elims)

lemma wrap_list_exact:
  assumes "list_all is_text_block sel" "sel \<noteq> []" "lo = k + blocks_in_list pre"
    "hi + 1 = lo + length sel"
  shows "wrap_list ty' lo hi k (pre @ sel @ post) = pre @ [Element ty' None sel] @ post"
proof -
  note parts = before_sel_exact(1)[OF assms(1-3), of post] in_sel_exact[OF assms, of post]
  have "\<not> in_one_container lo hi k (pre @ sel @ post)"
  proof (cases sel)
    case Nil
    then show ?thesis using assms(2) by simp
  next
    case (Cons b bs)
    then obtain ty al cs where b: "b = Element ty al cs" "list_all is_text cs"
      using assms(1) by (cases b) auto
    show ?thesis unfolding in_one_container_def parts
      using Cons b by (cases bs) simp_all
  qed
  then show ?thesis using assms(2) by (simp add: parts)
qed

lemma unwrap_node_exact:
  assumes "list_all is_text_block (its1 @ sel @ its2)" "sel \<noteq> []"
    "lo = k + length its1" "hi + 1 = lo + length sel"
    "m (Element ty al (its1 @ sel @ its2))" "\<And>n. n \<in> set (its1 @ sel @ its2) \<Longrightarrow> \<not> m n"
  shows "unwrap_node m lo hi k (Element ty al (its1 @ sel @ its2)) =
           container ty al its1 @ sel @ container ty al its2"
proof -
  have tb: "list_all is_text_block sel" "list_all is_text_block its1" using assms(1) by simp_all
  have lo: "lo = k + blocks_in_list its1" using tb assms(3) by (simp add: text_blocks_count)
  have cnt: "blocks_in_list (its1 @ sel @ its2) = length its1 + length sel + length its2"
    using assms(1) by (simp add: text_blocks_count del: list_all_append)
  have nt: "\<not> list_all is_text (its1 @ sel @ its2)"
    using tb(1) assms(2) by (rule not_all_text)
  have "blocks_in (Element ty al (its1 @ sel @ its2)) = blocks_in_list (its1 @ sel @ its2)"
    by (simp only: blocks_in.simps nt if_False)
  moreover have "0 < length sel" using assms(2) by simp
  ultimately have inb: "in_blocks lo hi k (Element ty al (its1 @ sel @ its2))"
    unfolding in_blocks_def cnt using assms(3,4) by linarith
  have "set (nodes_in_list lo hi k (its1 @ sel @ its2)) \<subseteq> set (its1 @ sel @ its2)"
    using assms(1) by (rule nodes_in_text_blocks)
  then have nom: "filter m (nodes_in_list lo hi k (its1 @ sel @ its2)) = []"
    using assms(6) by (auto simp: filter_empty_conv)
  show ?thesis
    using nt inb nom assms(5)
      before_sel_exact(1)[OF tb(1) assms(2) lo, of its2] in_sel_exact[OF tb(1) assms(2) lo assms(4), of its2]
    by (simp del: list_all_append)
qed


lemma range_blocks: "first_block r \<le> last_block r"
  by (auto simp: first_block_def last_block_def range_start_def range_end_def point_le_def)

lemma hanging_blocks: "hanging r \<Longrightarrow> first_block r < last_block r"
proof -
  assume h: "hanging r"
  have "first_block r \<noteq> last_block r"
  proof
    assume "first_block r = last_block r"
    then have "range_start r = range_end r"
      using h by (intro point.equality) (simp_all add: hanging_def first_block_def last_block_def)
    then show False using h by (simp add: hanging_def)
  qed
  then show ?thesis using range_blocks[of r] by simp
qed

lemma unhung_last_bounds: "first_block r \<le> unhung_last r" "unhung_last r \<le> last_block r"
  using hanging_blocks[of r] range_blocks[of r] by (auto simp: unhung_last_def)

lemma unhang_blocks:
  "first_block (unhangRange e r) = first_block r"
  "last_block (unhangRange e r) = unhung_last r"
proof -
  have "first_block (unhangRange e r) = first_block r \<and> last_block (unhangRange e r) = unhung_last r"
  proof (cases "hanging r")
    case False
    then show ?thesis by (simp add: unhangRange_def unhung_last_def)
  next
    case True
    let ?u = "\<lparr>anchor = range_start r, focus = end_of_block e (block (range_end r) - 1)\<rparr>"
    have lt: "block (range_start r) < block (range_end r)"
      using hanging_blocks[OF True] by (simp add: first_block_def last_block_def)
    have "point_le (anchor ?u) (focus ?u)"
      using lt True by (auto simp: point_le_def end_of_block_def Let_def hanging_def)
    then have "range_start ?u = range_start r" "range_end ?u = end_of_block e (block (range_end r) - 1)"
      by (simp_all add: range_start_def range_end_def)
    then show ?thesis
      using True
      by (simp add: unhangRange_def unhung_last_def first_block_def last_block_def end_of_block_def Let_def)
  qed
  then show "first_block (unhangRange e r) = first_block r"
    "last_block (unhangRange e r) = unhung_last r" by simp_all
qed

lemma selected_unhung:
  "selected (unhangRange e r) i = (first_block r \<le> i \<and> i \<le> unhung_last r)"
  by (simp add: selected_def unhang_blocks)

lemma text_blocks_text_block: "is_text_block n \<Longrightarrow> text_blocks n = [n]"
  by (cases n) simp_all

lemma map_blocks_keeps:
  "(\<And>i b. is_text_block b \<Longrightarrow> is_text_block (g i b)) \<Longrightarrow>
   is_text (map_block g k n) = is_text n \<and> blocks_in (map_block g k n) = blocks_in n"
  "(\<And>i b. is_text_block b \<Longrightarrow> is_text_block (g i b)) \<Longrightarrow>
   list_all is_text (map_blocks g k ns) = list_all is_text ns
   \<and> blocks_in_list (map_blocks g k ns) = blocks_in_list ns"
proof (induction g k n and g k ns rule: map_block_map_blocks.induct)
  case (2 g k ty al cs)
  show ?case
  proof (cases "list_all is_text cs")
    case True
    then have "is_text_block (g k (Element ty al cs))" by (intro "2.prems") simp
    then show ?thesis using True by (cases "g k (Element ty al cs)") simp_all
  next
    case False
    then show ?thesis using 2 by simp
  qed
qed simp_all

lemma text_blocks_map_blocks:
  "(\<And>i b. is_text_block b \<Longrightarrow> is_text_block (g i b)) \<Longrightarrow>
   text_blocks (map_block g k n) = map (\<lambda>(i, b). g i b) (zip [k..<k + blocks_in n] (text_blocks n))"
  "(\<And>i b. is_text_block b \<Longrightarrow> is_text_block (g i b)) \<Longrightarrow>
   text_blocks_list (map_blocks g k ns) =
     map (\<lambda>(i, b). g i b) (zip [k..<k + blocks_in_list ns] (text_blocks_list ns))"
proof (induction g k n and g k ns rule: map_block_map_blocks.induct)
  case (1 g k l)
  then show ?case by simp
next
  case (2 g k ty al cs)
  show ?case
  proof (cases "list_all is_text cs")
    case True
    then have "is_text_block (g k (Element ty al cs))" by (intro "2.prems") simp
    then show ?thesis using True by (simp add: text_blocks_text_block)
  next
    case False
    then have "\<not> list_all is_text (map_blocks g k cs)"
      using map_blocks_keeps(2)[of g k cs] "2.prems" by simp
    then show ?thesis using False 2 by simp
  qed
next
  case (3 g k)
  then show ?case by simp
next
  case (4 g k n ns)
  have len: "length (text_blocks n) = blocks_in n" by (simp add: length_text_blocks)
  have upt: "[k..<k + (blocks_in n + blocks_in_list ns)] =
      [k..<k + blocks_in n] @ [k + blocks_in n..<k + blocks_in n + blocks_in_list ns]"
    using upt_add_eq_append[of k "k + blocks_in n" "blocks_in_list ns"] by (simp only: add.assoc le_add1)
  let ?f = "\<lambda>(i, b). g i b"
  have ih1: "text_blocks (map_block g k n) = map ?f (zip [k..<k + blocks_in n] (text_blocks n))"
    using "4.prems" by (rule "4.IH"(1))
  have ih2: "text_blocks_list (map_blocks g (k + blocks_in n) ns) =
      map ?f (zip [k + blocks_in n..<k + blocks_in n + blocks_in_list ns] (text_blocks_list ns))"
    using "4.prems" by (rule "4.IH"(2))
  have "text_blocks_list (map_blocks g k (n # ns)) =
      text_blocks (map_block g k n) @ text_blocks_list (map_blocks g (k + blocks_in n) ns)"
    by simp
  also have "\<dots> = map ?f (zip [k..<k + blocks_in n] (text_blocks n)) @
      map ?f (zip [k + blocks_in n..<k + blocks_in n + blocks_in_list ns] (text_blocks_list ns))"
    by (simp only: ih1 ih2)
  also have "\<dots> = map ?f (zip ([k..<k + blocks_in n] @ [k + blocks_in n..<k + blocks_in n + blocks_in_list ns])
      (text_blocks n @ text_blocks_list ns))"
    using len by simp
  also have "\<dots> = map ?f (zip [k..<k + blocks_in_list (n # ns)] (text_blocks_list (n # ns)))"
    by (simp only: upt[symmetric] text_blocks_list.simps blocks_in_list.simps)
  finally show ?case .
qed

lemma text_blocks_map_blocks_nth:
  assumes "\<And>i b. is_text_block b \<Longrightarrow> is_text_block (g i b)"
    and "i < length (text_blocks_list ns)"
  shows "text_blocks_list (map_blocks g 0 ns) ! i = g i (text_blocks_list ns ! i)"
    and "length (text_blocks_list (map_blocks g 0 ns)) = length (text_blocks_list ns)"
  using assms(2) by (simp_all add: text_blocks_map_blocks(2)[OF assms(1)] length_text_blocks)


lemma apply_props_type: "apply_props \<lparr>prop_type = Some ty', prop_align = None\<rparr> n = with_type ty' n"
  by (cases n) simp_all


lemma has_type_unique: "has_type a n \<Longrightarrow> has_type b n \<Longrightarrow> a = b"
  by (cases n) simp_all

lemma nodes_in_list_middle:
  assumes "blocks_in_list pre \<le> lo" and "hi < blocks_in_list pre + blocks_in_list mid"
  shows "nodes_in_list lo hi 0 (pre @ mid @ post) = nodes_in_list lo hi (blocks_in_list pre) mid"
  using assms by (simp add: nodes_in_list_append nodes_in_list_outside)



section \<open>Properties of the queries\<close>

text \<open>
  C10. Without a selection (\<^verbatim>\<open>editor.selection\<close> is \<^verbatim>\<open>null\<close>) \<^verbatim>\<open>isBlockActive\<close> returns
  false for every document and every block type, and \<^verbatim>\<open>getCurrentHeading\<close> returns
  \<^verbatim>\<open>Normal\<close>. Both are total functions: they return without error.
\<close>

theorem queries_without_selection:
  assumes "selection e = None"
  shows "isBlockActive e format = False \<and> getCurrentHeading e = ''Normal''"
  using assms by (simp add: isBlockActive_def getCurrentHeading_def)

theorem queries_without_selection_witness:
  "isBlockActive \<lparr>children = [Element ''heading-one'' None [Text (plain ''cd'')]], selection = None, marks = None\<rparr>
     ''heading-one'' = False
   \<and> getCurrentHeading
       \<lparr>children = [Element ''heading-one'' None [Text (plain ''cd'')]], selection = None, marks = None\<rparr> = ''Normal''"
  using queries_without_selection
    [of "\<lparr>children = [Element ''heading-one'' None [Text (plain ''cd'')]], selection = None, marks = None\<rparr>"
        "''heading-one''"]
  by simp












section \<open>Properties of the commands\<close>

subsection \<open>toggleAlign\<close>





subsection \<open>toggleBlock\<close>


lemma setNodes_exact:
  assumes e: "children e = pre @ sel @ post" "selection e = Some r"
    and r: "first_block r = blocks_in_list pre" "unhung_last r + 1 = first_block r + length sel"
    and sel: "list_all is_text_block sel"
  shows "setNodes e p = e\<lparr>children := pre @ map (apply_props p) sel @ post\<rparr>"
proof -
  let ?g = "\<lambda>i n. if first_block r \<le> i \<and> i \<le> unhung_last r then apply_props p n else n"
  have cnt: "blocks_in_list sel = length sel" using sel by (rule text_blocks_count)
  have pre: "map_blocks ?g 0 pre = pre"
    using r by (intro map_block_id(2)) simp
  have post: "map_blocks ?g (blocks_in_list pre + length sel) post = post"
    using r by (intro map_block_id(2)) simp
  have mid: "map_blocks ?g (blocks_in_list pre) sel = map (apply_props p) sel"
    using sel r by (intro map_blocks_text_blocks) simp_all
  show ?thesis
    using e by (simp add: setNodes_def Let_def selected_unhung map_blocks_append pre post mid cnt)
qed

lemma setNodes_prefix:
  assumes e: "children e = pre @ sel @ post" "selection e = Some r"
    and r: "first_block r = blocks_in_list pre" "last_block r + 1 = first_block r + length sel"
    and sel: "list_all is_text_block sel"
    and same: "\<And>n. n \<in> set sel \<Longrightarrow> apply_props p n = n"
  shows "setNodes e p = e"
proof -
  let ?n = "unhung_last r + 1 - first_block r"
  have n: "unhung_last r + 1 = first_block r + length (take ?n sel)"
    using unhung_last_bounds[of r] r(2) by simp
  have "children e = pre @ take ?n sel @ (drop ?n sel @ post)" using e(1) by simp
  moreover have "list_all is_text_block (take ?n sel)"
    using sel by (auto simp: list_all_iff dest: in_set_takeD)
  ultimately have "setNodes e p =
      e\<lparr>children := pre @ map (apply_props p) (take ?n sel) @ (drop ?n sel @ post)\<rparr>"
    using e(2) r(1) n by (intro setNodes_exact)
  moreover have "map (apply_props p) (take ?n sel) = take ?n sel"
    using same by (auto intro!: map_idI dest: in_set_takeD)
  ultimately show ?thesis using e(1) by simp
qed

lemma wrapNodes_exact:
  assumes e: "children e = pre @ sel @ post" "selection e = Some r"
    and r: "first_block r = blocks_in_list pre" "last_block r + 1 = first_block r + length sel"
    and sel: "sel \<noteq> []" "list_all is_text_block sel"
  shows "wrapNodes e ty' = e\<lparr>children := pre @ [Element ty' None sel] @ post\<rparr>"
proof -
  have "wrap_list ty' (first_block r) (last_block r) 0 (pre @ sel @ post) =
      pre @ [Element ty' None sel] @ post"
    using sel r by (intro wrap_list_exact) simp_all
  then show ?thesis using e by (simp add: wrapNodes_def)
qed

lemma blocks_in_container:
  "list_all is_text_block its \<Longrightarrow> blocks_in_list (container ty al its) = length its"
proof (cases its)
  case Nil
  then show ?thesis by (simp add: container_def)
next
  case (Cons b bs)
  assume tb: "list_all is_text_block its"
  then have "\<not> list_all is_text its" using Cons by (cases b) auto
  moreover have "its \<noteq> []" using Cons by simp
  ultimately have "blocks_in_list (container ty al its) = blocks_in_list its"
    by (simp only: container_def if_False blocks_in_list.simps blocks_in.simps add_0_right)
  then show ?thesis using tb by (simp add: text_blocks_count)
qed


lemma unwrapNodes_container:
  assumes e: "children e = pre @ [Element ty al (its1 @ sel @ its2)] @ post" "selection e = Some r"
    and r: "first_block r = blocks_in_list pre + length its1"
      "last_block r + 1 = first_block r + length sel"
    and sel: "sel \<noteq> []" "list_all is_text_block (its1 @ sel @ its2)"
    and m: "m (Element ty al (its1 @ sel @ its2))" "\<And>n. n \<in> set (its1 @ sel @ its2) \<Longrightarrow> \<not> m n"
  shows "unwrapNodes e m =
    e\<lparr>children := pre @ container ty al its1 @ sel @ container ty al its2 @ post\<rparr>"
proof -
  let ?c = "Element ty al (its1 @ sel @ its2)"
  have nt: "\<not> list_all is_text (its1 @ sel @ its2)"
    using sel by (intro not_all_text) simp_all
  have cnt: "blocks_in ?c = length its1 + length sel + length its2"
    using text_blocks_count[OF sel(2)] by (simp only: blocks_in.simps nt if_False) simp
  have mid: "unwrap_node m (first_block r) (last_block r) (blocks_in_list pre) ?c =
      container ty al its1 @ sel @ container ty al its2"
    using sel r m by (intro unwrap_node_exact) simp_all
  have pre: "unwrap_list m (first_block r) (last_block r) 0 pre = pre"
    using r by (intro unwrap_outside(2)) simp
  have post: "unwrap_list m (first_block r) (last_block r) (blocks_in_list pre + blocks_in ?c) post = post"
    using r unfolding cnt by (intro unwrap_outside(2)) simp
  have "unwrap_list m (first_block r) (last_block r) 0 (pre @ [?c] @ post) =
      pre @ container ty al its1 @ sel @ container ty al its2 @ post"
    unfolding unwrap_list_append pre
    by (simp only: unwrap_list.simps mid post blocks_in_list.simps add_0 add_0_right append_Nil2 append_assoc)
  then show ?thesis using e by (simp add: unwrapNodes_def)
qed





lemma list_item_not_container: "has_type ''list-item'' n \<Longrightarrow> \<not> is_list_container n"
  by (cases n) (simp_all add: is_list_type_def)

lemma list_item_block: "is_list_item n \<Longrightarrow> is_text_block n \<and> has_type ''list-item'' n"
  by (cases n) simp_all

lemma with_type_list_item: "is_list_item n \<Longrightarrow> with_type ''list-item'' n = n"
  by (cases n) simp_all

lemma no_stray_container:
  "list_all (no_stray_item True) its \<Longrightarrow> is_list_type ty \<Longrightarrow> ty \<noteq> ''list-item'' \<Longrightarrow>
   list_all (no_stray_item False) (container ty al its)"
  by (simp add: container_def)




text \<open>
  C4. The selection covers exactly the items \<open>sel\<close>, at least one, of a bulleted list
  with the items \<open>its1 @ sel @ its2\<close>, in a document without a list item outside a list
  container. Then \<^verbatim>\<open>toggleBlock('numbered-list')\<close> puts the selected items, and only them,
  into one new numbered list at their place; the items before and after them stay in
  bulleted lists of their own; and the resulting document again has no list item
  outside a list container.
\<close>

theorem toggleBlock_numbered_within_bulleted:
  assumes e: "children e = pre @ [Element ''bulleted-list'' al (its1 @ sel @ its2)] @ post"
      "selection e = Some r"
    and r: "first_block r = blocks_in_list pre + length its1"
      "last_block r + 1 = first_block r + length sel"
    and sel: "sel \<noteq> []" "list_all is_list_item (its1 @ sel @ its2)"
    and inv: "list_all (no_stray_item False) (children e)"
  shows "children (toggleBlock ''numbered-list'' e) =
      pre @ container ''bulleted-list'' al its1 @ [Element ''numbered-list'' None sel]
        @ container ''bulleted-list'' al its2 @ post
    \<and> list_all (no_stray_item False) (children (toggleBlock ''numbered-list'' e))"
proof -
  let ?items = "its1 @ sel @ its2"
  let ?c = "Element ''bulleted-list'' al ?items"
  let ?pre = "pre @ container ''bulleted-list'' al its1"
  let ?post = "container ''bulleted-list'' al its2 @ post"
  let ?ea = "e\<lparr>children := ?pre @ sel @ ?post\<rparr>"
  have tb: "list_all is_text_block ?items" "list_all is_text_block sel" "list_all is_text_block its1"
    and li: "\<And>n. n \<in> set ?items \<Longrightarrow> has_type ''list-item'' n"
    using sel(2) by (auto simp: list_all_iff list_item_block)
  have nt: "\<not> list_all is_text ?items" using tb(2) sel(1) by (rule not_all_text)
  have cnt: "blocks_in ?c = length its1 + length sel + length its2"
    using text_blocks_count[OF tb(1)] by (simp only: blocks_in.simps nt if_False) simp
  \<comment> \<open>the query\<close>
  have hi: "first_block r \<le> unhung_last r" "unhung_last r \<le> last_block r"
    by (rule unhung_last_bounds)+
  have "nodes_in_list (first_block r) (unhung_last r) 0 (pre @ [?c] @ post) =
      nodes_in_list (first_block r) (unhung_last r) (blocks_in_list pre) [?c]"
    using r hi cnt by (intro nodes_in_list_middle) simp_all
  moreover have "set (nodes_in_list (first_block r) (unhung_last r) (blocks_in_list pre) ?items) \<subseteq> set ?items"
    using tb(1) by (rule nodes_in_text_blocks)
  ultimately have "set (nodes_in_list (first_block r) (unhung_last r) 0 (children e)) \<subseteq> insert ?c (set ?items)"
    unfolding e(1) by (auto simp del: list_all_append set_append split: if_splits)
  moreover have "\<not> has_type ''numbered-list'' ?c" by simp
  moreover have "\<And>n. n \<in> set ?items \<Longrightarrow> \<not> has_type ''numbered-list'' n"
    using li has_type_unique by fastforce
  ultimately have "filter (has_type ''numbered-list'')
      (nodes_in_list (first_block r) (unhung_last r) 0 (children e)) = []"
    by (auto simp: filter_empty_conv simp del: set_append)
  then have act: "\<not> isBlockActive e ''numbered-list''"
    using e(2) by (simp add: isBlockActive_def Editor_nodes_def unhang_blocks)
  \<comment> \<open>the three transformations\<close>
  have "unwrapNodes e is_list_container =
      e\<lparr>children := pre @ container ''bulleted-list'' al its1 @ sel @ container ''bulleted-list'' al its2 @ post\<rparr>"
  proof (rule unwrapNodes_container[OF e r sel(1) tb(1)])
    show "is_list_container ?c" by (simp add: is_list_type_def)
    show "\<And>n. n \<in> set ?items \<Longrightarrow> \<not> is_list_container n"
      using li by (simp add: list_item_not_container)
  qed
  then have unw: "unwrapNodes e is_list_container = ?ea" by simp
  have r1: "first_block r = blocks_in_list ?pre"
    using r(1) by (simp add: blocks_in_list_append blocks_in_container[OF tb(3)])
  have same: "\<And>n. n \<in> set sel \<Longrightarrow>
      apply_props \<lparr>prop_type = Some ''list-item'', prop_align = None\<rparr> n = n"
    using sel(2) by (simp add: apply_props_type list_all_iff with_type_list_item)
  have setp: "setNodes ?ea \<lparr>prop_type = Some ''list-item'', prop_align = None\<rparr> = ?ea"
    by (rule setNodes_prefix[OF _ _ r1 r(2) tb(2) same]) (simp_all add: e(2))
  have wrap: "wrapNodes ?ea ''numbered-list'' =
      ?ea\<lparr>children := ?pre @ [Element ''numbered-list'' None sel] @ ?post\<rparr>"
    by (rule wrapNodes_exact[OF _ _ r1 r(2) sel(1) tb(2)]) (simp_all add: e(2))
  have res: "children (toggleBlock ''numbered-list'' e) =
      pre @ container ''bulleted-list'' al its1 @ [Element ''numbered-list'' None sel]
        @ container ''bulleted-list'' al its2 @ post"
    using act unw setp wrap by (simp add: toggleBlock_def Let_def is_list_type_def)
  \<comment> \<open>no list item is left outside a list\<close>
  have inside: "list_all (no_stray_item True) its1" "list_all (no_stray_item True) sel"
    "list_all (no_stray_item True) its2"
    and outside: "list_all (no_stray_item False) pre" "list_all (no_stray_item False) post"
    using inv unfolding e(1) by (simp_all add: is_list_type_def)
  have "list_all (no_stray_item False) (container ''bulleted-list'' al its1)"
    "list_all (no_stray_item False) (container ''bulleted-list'' al its2)"
    using inside by (simp_all add: no_stray_container is_list_type_def)
  moreover have "no_stray_item False (Element ''numbered-list'' None sel)"
    using inside(2) by (simp add: is_list_type_def)
  ultimately have "list_all (no_stray_item False) (children (toggleBlock ''numbered-list'' e))"
    unfolding res using outside by simp
  then show ?thesis using res by simp
qed

theorem toggleBlock_numbered_within_bulleted_witness:
  "children (toggleBlock ''numbered-list'' list_example) =
     [para None ''a'',
      Element ''bulleted-list'' None [list_item ''x''],
      Element ''numbered-list'' None [list_item ''y'', list_item ''z''],
      para None ''b'']
   \<and> list_all (no_stray_item False) (children (toggleBlock ''numbered-list'' list_example))"
proof -
  let ?r = "\<lparr>anchor = \<lparr>block = 2, offset = 0\<rparr>, focus = \<lparr>block = 3, offset = 1\<rparr>\<rparr>"
  have c: "children list_example =
      [para None ''a''] @ [Element ''bulleted-list'' None ([list_item ''x''] @ [list_item ''y'', list_item ''z''] @ [])]
        @ [para None ''b'']"
    and s: "selection list_example = Some ?r"
    by (simp_all add: list_example_def select_def)
  have r1: "first_block ?r = blocks_in_list [para None ''a''] + length [list_item ''x'']"
    and r2: "last_block ?r + 1 = first_block ?r + length [list_item ''y'', list_item ''z'']"
    by (simp_all add: first_block_def last_block_def range_start_def range_end_def point_le_def para_def)
  have ne: "[list_item ''y'', list_item ''z''] \<noteq> []"
    and items: "list_all is_list_item ([list_item ''x''] @ [list_item ''y'', list_item ''z''] @ [])"
    by (simp_all add: list_item_def)
  have inv: "list_all (no_stray_item False) (children list_example)"
    by (simp add: list_example_def para_def list_item_def is_list_type_def)
  show ?thesis
    using toggleBlock_numbered_within_bulleted[OF c s r1 r2 ne items inv]
    by (simp add: container_def para_def list_item_def is_list_type_def)
qed

subsection \<open>toggleFormat\<close>

lemma set_mark_text: "leaf_text (set_mark m v l) = leaf_text l"
  by (cases m) simp_all

lemma get_set_mark: "get_mark m (set_mark m v l) = Some v"
  by (cases m) simp_all

lemma set_mark_restore: "get_mark m l = Some v \<Longrightarrow> set_mark m v (set_mark m w l) = l"
  by (cases m) simp_all

lemma set_mark_same: "get_mark m l = Some v \<Longrightarrow> set_mark m v l = l"
  by (cases m) simp_all

lemma get_mark_marks_of: "get_mark m (marks_of l) = get_mark m l"
  by (cases m) (simp_all add: marks_of_def)

lemma marks_of_with_text: "marks_of (with_text ms s) = ms" "leaf_text (with_text ms s) = s"
  by (simp_all add: marks_of_def with_text_def)

lemma with_text_marks_of: "with_text (marks_of l) (leaf_text l) = l"
  by (simp add: marks_of_def with_text_def)

lemma marks_of_text: "marks_of (l\<lparr>leaf_text := s\<rparr>) = marks_of l"
  by (simp add: marks_of_def)

lemma with_text_cons: "(with_text ms s)\<lparr>leaf_text := t\<rparr> = with_text ms t"
  by (simp add: with_text_def)

lemma length_chars_of: "length (chars_of ls) = text_length ls"
  by (induction ls) (simp_all add: text_length_def)

lemma chars_of_runs: "chars_of (runs xs) = xs"
proof (induction xs)
  case Nil
  then show ?case by simp
next
  case (Cons x xs)
  show ?case
  proof (cases "runs xs")
    case Nil
    then have "xs = []" using Cons.IH by simp
    then show ?thesis by (simp add: marks_of_with_text)
  next
    case c: (Cons l ls)
    then have "map (\<lambda>c. (c, marks_of l)) (leaf_text l) @ chars_of ls = xs"
      using Cons.IH by simp
    then show ?thesis using c by (auto simp: marks_of_with_text marks_of_text)
  qed
qed

lemma runs_prefix:
  "s \<noteq> [] \<Longrightarrow>
   runs (map (\<lambda>c. (c, ms)) s @ xs) =
     (case runs xs of
        [] \<Rightarrow> [with_text ms s]
      | l # ls \<Rightarrow> if marks_of l = ms then l\<lparr>leaf_text := s @ leaf_text l\<rparr> # ls
                  else with_text ms s # l # ls)"
proof (induction s)
  case Nil
  then show ?case by simp
next
  case (Cons c s)
  show ?case
  proof (cases "s = []")
    case True
    then show ?thesis by (simp split: list.splits)
  next
    case False
    then show ?thesis
      using Cons.IH
      by (simp add: marks_of_with_text marks_of_text with_text_cons split: list.splits)
  qed
qed

lemma runs_chars_of: "normal_leaves ls \<Longrightarrow> text_length ls \<noteq> 0 \<Longrightarrow> runs (chars_of ls) = ls"
proof (induction ls rule: normal_leaves.induct)
  case 1
  then show ?case by simp
next
  case (2 l)
  then have "leaf_text l \<noteq> []" by (simp add: text_length_def)
  then show ?case using runs_prefix[of "leaf_text l" "marks_of l" "[]"]
    by (simp add: with_text_marks_of)
next
  case (3 l l' ls)
  then have ne: "leaf_text l \<noteq> []" "leaf_text l' \<noteq> []" "marks_of l \<noteq> marks_of l'"
    "normal_leaves (l' # ls)" by simp_all
  have "text_length (l' # ls) \<noteq> 0" using ne(2) by (simp add: text_length_def)
  then have ih: "runs (chars_of (l' # ls)) = l' # ls" using "3.IH" ne(4) by simp
  have "runs (chars_of (l # l' # ls)) = runs (map (\<lambda>c. (c, marks_of l)) (leaf_text l) @ chars_of (l' # ls))"
    by simp
  also have "\<dots> = with_text (marks_of l) (leaf_text l) # l' # ls"
    unfolding runs_prefix[OF ne(1)] ih using ne(3) by simp
  finally show ?case by (simp add: with_text_marks_of)
qed

lemma length_set_range: "length (set_range f from to pos xs) = length xs"
  by (induction xs arbitrary: pos) simp_all

lemma set_range_nth:
  "j < length xs \<Longrightarrow>
   set_range f from to pos xs ! j =
     (fst (xs ! j), if from \<le> pos + j \<and> pos + j < to then f (snd (xs ! j)) else snd (xs ! j))"
proof (induction xs arbitrary: pos j)
  case Nil
  then show ?case by simp
next
  case (Cons x xs)
  show ?case
  proof (cases j)
    case 0
    then show ?thesis by simp
  next
    case (Suc j')
    then show ?thesis using Cons.IH[of j' "Suc pos"] Cons.prems by simp
  qed
qed

lemma set_range_id:
  assumes "\<And>j. j < length xs \<Longrightarrow> from \<le> pos + j \<Longrightarrow> pos + j < to \<Longrightarrow> f (snd (xs ! j)) = snd (xs ! j)"
  shows "set_range f from to pos xs = xs"
proof (rule nth_equalityI)
  show "length (set_range f from to pos xs) = length xs" by (rule length_set_range)
next
  fix j assume "j < length (set_range f from to pos xs)"
  then have j: "j < length xs" by (simp add: length_set_range)
  show "set_range f from to pos xs ! j = xs ! j"
    using assms[OF j] by (simp add: set_range_nth[OF j] prod_eq_iff)
qed

lemma set_range_twice:
  assumes "\<And>j. j < length xs \<Longrightarrow> from \<le> pos + j \<Longrightarrow> pos + j < to \<Longrightarrow> g (f (snd (xs ! j))) = snd (xs ! j)"
  shows "set_range g from to pos (set_range f from to pos xs) = xs"
proof (rule nth_equalityI)
  show "length (set_range g from to pos (set_range f from to pos xs)) = length xs"
    by (simp add: length_set_range)
next
  fix j assume "j < length (set_range g from to pos (set_range f from to pos xs))"
  then have j: "j < length xs" by (simp add: length_set_range)
  then have j': "j < length (set_range f from to pos xs)" by (simp add: length_set_range)
  show "set_range g from to pos (set_range f from to pos xs) ! j = xs ! j"
    using assms[OF j] by (simp add: set_range_nth[OF j'] set_range_nth[OF j] prod_eq_iff)
qed

lemma covered_nth:
  assumes "list_all P (map snd (take (to - from) (drop from xs)))"
    and "j < length xs" "from \<le> j" "j < to"
  shows "P (snd (xs ! j))"
proof -
  let ?ys = "take (to - from) (drop from xs)"
  have i: "j - from < length ?ys" using assms(2-4) by (simp add: diff_less_mono)
  then have "P (snd (?ys ! (j - from)))"
    using assms(1) by (simp add: list_all_length)
  moreover have "?ys ! (j - from) = xs ! j" using assms(2-4) by simp
  ultimately show ?thesis by simp
qed

lemma leaf_at_marks:
  "j < text_length ls \<Longrightarrow> \<exists>l. leaf_at j ls = Some l \<and> marks_of l = snd (chars_of ls ! j)"
proof (induction ls arbitrary: j)
  case Nil
  then show ?case by (simp add: text_length_def)
next
  case (Cons l ls)
  show ?case
  proof (cases "j < length (leaf_text l)")
    case True
    then show ?thesis by (simp add: nth_append)
  next
    case False
    then have "j - length (leaf_text l) < text_length ls"
      using Cons.prems by (simp add: text_length_def)
    then show ?thesis using Cons.IH[of "j - length (leaf_text l)"] False
      by (simp add: nth_append)
  qed
qed

lemma text_length_set_marks: "text_length (map (set_mark m w) ls) = text_length ls"
  by (simp add: text_length_def comp_def set_mark_text)

lemma chars_of_mark_leaves:
  "text_length ls \<noteq> 0 \<Longrightarrow>
   chars_of (mark_leaves m w from to ls) = set_range (set_mark m w) from to 0 (chars_of ls)"
  by (simp add: mark_leaves_def chars_of_runs)

lemma text_length_mark_leaves: "text_length (mark_leaves m w from to ls) = text_length ls"
proof (cases "text_length ls = 0")
  case True
  then show ?thesis by (simp add: mark_leaves_def text_length_set_marks)
next
  case False
  then show ?thesis
    using chars_of_mark_leaves[OF False, of m w "from" to]
      length_chars_of[of "mark_leaves m w from to ls"] length_chars_of[of ls]
    by (simp add: length_set_range)
qed

lemma map_blocks_comp:
  "(\<And>i b. is_text_block b \<Longrightarrow> is_text_block (g1 i b)) \<Longrightarrow>
   map_block g2 k (map_block g1 k n) = map_block (\<lambda>i b. g2 i (g1 i b)) k n"
  "(\<And>i b. is_text_block b \<Longrightarrow> is_text_block (g1 i b)) \<Longrightarrow>
   map_blocks g2 k (map_blocks g1 k ns) = map_blocks (\<lambda>i b. g2 i (g1 i b)) k ns"
proof (induction g1 k n and g1 k ns rule: map_block_map_blocks.induct)
  case (1 g k l)
  then show ?case by simp
next
  case (2 g k ty al cs)
  show ?case
  proof (cases "list_all is_text cs")
    case True
    then have "is_text_block (g k (Element ty al cs))" by (intro "2.prems") simp
    then obtain ty' al' cs' where g: "g k (Element ty al cs) = Element ty' al' cs'" "list_all is_text cs'"
      by (cases "g k (Element ty al cs)") auto
    show ?thesis using True g by simp
  next
    case False
    then have "\<not> list_all is_text (map_blocks g k cs)"
      using map_blocks_keeps(2)[of g k cs] "2.prems" by simp
    then show ?thesis using False 2 by simp
  qed
next
  case (3 g k)
  then show ?case by simp
next
  case (4 g k n ns)
  have "blocks_in (map_block g k n) = blocks_in n"
    using map_blocks_keeps(1)[of g k n] "4.prems" by simp
  then show ?case using 4 by simp
qed

lemma map_blocks_id_nth:
  "(\<And>j. j < blocks_in n \<Longrightarrow> g (k + j) (text_blocks n ! j) = text_blocks n ! j) \<Longrightarrow>
   map_block g k n = n"
  "(\<And>j. j < blocks_in_list ns \<Longrightarrow> g (k + j) (text_blocks_list ns ! j) = text_blocks_list ns ! j) \<Longrightarrow>
   map_blocks g k ns = ns"
proof (induction g k n and g k ns rule: map_block_map_blocks.induct)
  case (1 g k l)
  then show ?case by simp
next
  case (2 g k ty al cs)
  show ?case
  proof (cases "list_all is_text cs")
    case True
    then show ?thesis using "2.prems"[of 0] by simp
  next
    case False
    then show ?thesis using 2 by simp
  qed
next
  case (3 g k)
  then show ?case by simp
next
  case (4 g k n ns)
  have len: "length (text_blocks n) = blocks_in n" by (simp add: length_text_blocks)
  have "map_block g k n = n"
  proof (rule "4.IH"(1))
    fix j assume j: "j < blocks_in n"
    then show "g (k + j) (text_blocks n ! j) = text_blocks n ! j"
      using "4.prems"[of j] len by (simp add: nth_append)
  qed
  moreover have "map_blocks g (k + blocks_in n) ns = ns"
  proof (rule "4.IH"(2))
    fix j assume j: "j < blocks_in_list ns"
    then show "g (k + blocks_in n + j) (text_blocks_list ns ! j) = text_blocks_list ns ! j"
      using "4.prems"[of "blocks_in n + j"] len by (simp add: nth_append add.assoc)
  qed
  ultimately show ?case by simp
qed

lemma text_blocks_are_text_blocks:
  "list_all is_text_block (text_blocks n)"
  "list_all is_text_block (text_blocks_list ns)"
  by (induction n and ns rule: text_blocks_text_blocks_list.induct) simp_all


lemma covered_marks_nth:
  assumes "text_length ls \<noteq> 0" "list_all P (covered_marks from to ls)"
    and "j < length (chars_of ls)" "from \<le> j" "j < to"
  shows "P (snd (chars_of ls ! j))"
  using covered_nth[of P to "from" "chars_of ls" j] assms by (simp add: covered_marks_def)

lemma mark_leaves_same:
  assumes "list_all (\<lambda>ms. get_mark m ms = Some v) (covered_marks from to ls)"
  shows "mark_leaves m v from to ls = ls"
proof (cases "text_length ls = 0")
  case True
  show ?thesis
  proof (cases "from = 0")
    case z: True
    have "\<And>l. l \<in> set ls \<Longrightarrow> set_mark m v l = l"
      using assms True z by (auto simp: covered_marks_def list_all_iff get_mark_marks_of set_mark_same)
    then show ?thesis using True z by (simp add: mark_leaves_def map_idI)
  next
    case False
    then show ?thesis using True by (simp add: mark_leaves_def)
  qed
next
  case False
  have "set_range (set_mark m v) from to 0 (chars_of ls) = chars_of ls"
  proof (rule set_range_id)
    fix j assume j: "j < length (chars_of ls)" "from \<le> 0 + j" "0 + j < to"
    have "get_mark m (snd (chars_of ls ! j)) = Some v"
      using covered_marks_nth[OF False assms j(1)] j(2,3) by simp
    then show "set_mark m v (snd (chars_of ls ! j)) = snd (chars_of ls ! j)"
      by (rule set_mark_same)
  qed
  then show ?thesis using False by (simp add: mark_leaves_def)
qed

lemma mark_leaves_twice:
  assumes "normal_leaves ls"
    and "list_all (\<lambda>ms. get_mark m ms = Some v) (covered_marks from to ls)"
  shows "mark_leaves m v from to (mark_leaves m w from to ls) = ls"
proof (cases "text_length ls = 0")
  case True
  show ?thesis
  proof (cases "from = 0")
    case z: True
    have "\<And>l. l \<in> set ls \<Longrightarrow> set_mark m v (set_mark m w l) = l"
      using assms(2) True z
      by (auto simp: covered_marks_def list_all_iff get_mark_marks_of set_mark_restore)
    then have "map (set_mark m v) (map (set_mark m w) ls) = ls"
      by (simp add: map_idI)
    then show ?thesis using True z by (simp add: mark_leaves_def text_length_set_marks)
  next
    case False
    then show ?thesis using True by (simp add: mark_leaves_def)
  qed
next
  case False
  let ?xs = "chars_of ls"
  let ?xs1 = "set_range (set_mark m w) from to 0 ?xs"
  let ?ls1 = "mark_leaves m w from to ls"
  have c1: "chars_of ?ls1 = ?xs1" using False by (rule chars_of_mark_leaves)
  have t1: "text_length ?ls1 \<noteq> 0" using False by (simp add: text_length_mark_leaves)
  have restore: "set_range (set_mark m v) from to 0 ?xs1 = ?xs"
  proof (rule set_range_twice)
    fix j assume j: "j < length ?xs" "from \<le> 0 + j" "0 + j < to"
    have "get_mark m (snd (?xs ! j)) = Some v"
      using covered_marks_nth[OF False assms(2) j(1)] j(2,3) by simp
    then show "set_mark m v (set_mark m w (snd (?xs ! j))) = snd (?xs ! j)"
      by (rule set_mark_restore)
  qed
  have second: "mark_leaves m v from to ?ls1 = (if ?xs = ?xs1 then ?ls1 else runs ?xs)"
    using t1 by (simp add: mark_leaves_def[of m v "from" to ?ls1] c1 restore)
  show ?thesis
  proof (cases "?xs1 = ?xs")
    case True
    then have "?ls1 = ls" using False by (simp add: mark_leaves_def)
    then show ?thesis using second True by simp
  next
    case ne: False
    then have "mark_leaves m v from to ?ls1 = runs ?xs" using second by auto
    then show ?thesis using runs_chars_of[OF assms(1) False] by simp
  qed
qed

lemma mark_leaves_covers:
  assumes "j < text_length ls" "from \<le> j" "j < to"
  shows "\<exists>l. leaf_at j (mark_leaves m w from to ls) = Some l \<and> get_mark m l = Some w"
proof -
  let ?ls1 = "mark_leaves m w from to ls"
  have ne: "text_length ls \<noteq> 0" using assms(1) by simp
  have "j < text_length ?ls1" using assms(1) by (simp add: text_length_mark_leaves)
  then obtain l where l: "leaf_at j ?ls1 = Some l" "marks_of l = snd (chars_of ?ls1 ! j)"
    using leaf_at_marks by blast
  have j: "j < length (chars_of ls)" using assms(1) by (simp add: length_chars_of)
  have "marks_of l = set_mark m w (snd (chars_of ls ! j))"
    using l(2) assms(2,3) by (simp add: chars_of_mark_leaves[OF ne] set_range_nth[OF j])
  then have "get_mark m (marks_of l) = Some w" by (simp add: get_set_mark)
  then show ?thesis using l(1) by (auto simp: get_mark_marks_of)
qed

lemma normal_hd:
  "normal_leaves ls \<Longrightarrow> text_length ls \<noteq> 0 \<Longrightarrow> \<exists>l ls'. ls = l # ls' \<and> leaf_text l \<noteq> []"
  by (induction ls rule: normal_leaves.induct) (auto simp: text_length_def)

lemma runs_hd: "xs \<noteq> [] \<Longrightarrow> \<exists>l ls'. runs xs = l # ls' \<and> leaf_text l \<noteq> []"
  by (cases xs) (auto simp: marks_of_with_text split: list.splits)

lemma mark_leaves_first:
  assumes "normal_leaves ls" "text_length ls = 0 \<or> 0 < to"
  shows "\<exists>l ls'. mark_leaves m w 0 to ls = l # ls' \<and> get_mark m l = Some w"
proof (cases "text_length ls = 0")
  case True
  obtain l ls' where "ls = l # ls'" using assms(1) by (cases ls) auto
  then show ?thesis using True by (simp add: mark_leaves_def get_set_mark)
next
  case False
  let ?ls1 = "mark_leaves m w 0 to ls"
  have to: "0 < to" using assms(2) False by simp
  have "chars_of ls \<noteq> []" using False length_chars_of[of ls] by auto
  then have "set_range (set_mark m w) 0 to 0 (chars_of ls) \<noteq> []"
    using length_set_range[of "set_mark m w" 0 to 0 "chars_of ls"] by auto
  then have "\<exists>l ls'. runs (set_range (set_mark m w) 0 to 0 (chars_of ls)) = l # ls' \<and> leaf_text l \<noteq> []"
    by (rule runs_hd)
  moreover have "?ls1 = ls \<or> ?ls1 = runs (set_range (set_mark m w) 0 to 0 (chars_of ls))"
    using False by (simp add: mark_leaves_def)
  ultimately obtain l ls' where hd: "?ls1 = l # ls'" "leaf_text l \<noteq> []"
    using normal_hd[OF assms(1) False] by metis
  obtain l0 where l0: "leaf_at 0 ?ls1 = Some l0" "get_mark m l0 = Some w"
    using mark_leaves_covers[of 0 ls 0 to m w] False to by auto
  then have "l0 = l" using hd by simp
  then show ?thesis using hd l0 by simp
qed

lemma leaves_of_map_Text: "leaves_of (map Text ls) = ls"
  by (induction ls) simp_all

lemma map_Text_leaves_of: "list_all is_text cs \<Longrightarrow> map Text (leaves_of cs) = cs"
proof (induction cs)
  case Nil
  then show ?case by simp
next
  case (Cons c cs)
  then show ?case by (cases c) simp_all
qed

lemma mark_block_text_block: "is_text_block b \<Longrightarrow> is_text_block (mark_block m w f t b)"
  by (cases b) (simp_all add: list_all_iff)

lemma block_leaves_mark_block:
  "is_text_block b \<Longrightarrow> block_leaves (mark_block m w f t b) = mark_leaves m w f t (block_leaves b)"
  by (cases b) (simp_all add: leaves_of_map_Text)

lemma mark_block_same:
  "is_text_block b \<Longrightarrow> mark_leaves m w f t (block_leaves b) = block_leaves b \<Longrightarrow>
   mark_block m w f t b = b"
  by (cases b) (simp_all add: map_Text_leaves_of)

lemma sel_to_mark_block:
  "is_text_block b \<Longrightarrow> sel_to r i (mark_block m w f t b) = sel_to r i b"
  by (simp add: sel_to_def block_leaves_mark_block text_length_mark_leaves)

lemma mark_block_twice:
  assumes "is_text_block b" "normal_leaves (block_leaves b)"
    and "list_all (\<lambda>ms. get_mark m ms = Some v) (covered_marks f t (block_leaves b))"
  shows "mark_block m v f t (mark_block m w f t b) = b"
proof -
  have "mark_leaves m v f t (block_leaves (mark_block m w f t b)) = block_leaves b"
    using assms by (simp add: block_leaves_mark_block mark_leaves_twice)
  then show ?thesis using assms(1)
    by (cases b) (simp_all add: leaves_of_map_Text map_Text_leaves_of)
qed

lemma marks_uniform_nth:
  assumes "marks_uniform m v e r" "j < length (text_blocks_list (children e))" "selected r j"
  shows "normal_leaves (block_leaves (text_blocks_list (children e) ! j))"
    and "list_all (\<lambda>ms. get_mark m ms = Some v)
           (covered_marks (sel_from r j) (sel_to r j (text_blocks_list (children e) ! j))
              (block_leaves (text_blocks_list (children e) ! j)))"
proof -
  let ?bs = "text_blocks_list (children e)"
  have "(\<lambda>(i, b). if selected r i
                  then normal_leaves (block_leaves b)
                       \<and> list_all (\<lambda>ms. get_mark m ms = Some v)
                            (covered_marks (sel_from r i) (sel_to r i b) (block_leaves b))
                  else True) (zip [0..<length ?bs] ?bs ! j)"
    using assms(1,2) unfolding marks_uniform_def list_all_length by simp
  then show "normal_leaves (block_leaves (?bs ! j))"
    and "list_all (\<lambda>ms. get_mark m ms = Some v)
           (covered_marks (sel_from r j) (sel_to r j (?bs ! j)) (block_leaves (?bs ! j)))"
    using assms(2,3) by simp_all
qed

lemma range_ordered: "point_le (range_start r) (range_end r)"
  by (auto simp: range_start_def range_end_def point_le_def)

lemma range_distinct: "anchor r \<noteq> focus r \<Longrightarrow> range_start r \<noteq> range_end r"
  by (auto simp: range_start_def range_end_def)

lemma range_end_cases: "range_end r = anchor r \<or> range_end r = focus r"
  by (simp add: range_end_def)

lemma mark_selection_nth:
  assumes "i < length (text_blocks_list ns)"
  shows "text_blocks_list (mark_selection m w r ns) ! i =
      (if selected r i
       then mark_block m w (sel_from r i) (sel_to r i (text_blocks_list ns ! i)) (text_blocks_list ns ! i)
       else text_blocks_list ns ! i)"
    and "length (text_blocks_list (mark_selection m w r ns)) = length (text_blocks_list ns)"
proof -
  let ?g = "\<lambda>i b. if selected r i then mark_block m w (sel_from r i) (sel_to r i b) b else b"
  have keeps: "\<And>i b. is_text_block b \<Longrightarrow> is_text_block (?g i b)"
    by (simp add: mark_block_text_block)
  show "text_blocks_list (mark_selection m w r ns) ! i =
      (if selected r i
       then mark_block m w (sel_from r i) (sel_to r i (text_blocks_list ns ! i)) (text_blocks_list ns ! i)
       else text_blocks_list ns ! i)"
    and "length (text_blocks_list (mark_selection m w r ns)) = length (text_blocks_list ns)"
    unfolding mark_selection_def
    using text_blocks_map_blocks_nth[of ?g i ns, OF keeps assms] by simp_all
qed

lemma text_block_nth:
  "i < length (text_blocks_list ns) \<Longrightarrow> is_text_block (text_blocks_list ns ! i)"
  using text_blocks_are_text_blocks(2)[of ns] by (simp add: list_all_length)

lemma mark_selection_same:
  assumes "\<And>i. i < length (text_blocks_list ns) \<Longrightarrow> selected r i \<Longrightarrow>
      mark_leaves m w (sel_from r i) (sel_to r i (text_blocks_list ns ! i))
        (block_leaves (text_blocks_list ns ! i)) = block_leaves (text_blocks_list ns ! i)"
  shows "mark_selection m w r ns = ns"
  unfolding mark_selection_def
proof (rule map_blocks_id_nth(2))
  fix j assume "j < blocks_in_list ns"
  then have j: "j < length (text_blocks_list ns)" by (simp add: length_text_blocks)
  show "(if selected r (0 + j)
         then mark_block m w (sel_from r (0 + j)) (sel_to r (0 + j) (text_blocks_list ns ! j))
                (text_blocks_list ns ! j)
         else text_blocks_list ns ! j) = text_blocks_list ns ! j"
    using assms[OF j] text_block_nth[OF j] by (simp add: mark_block_same)
qed

lemma mark_selection_twice:
  assumes "\<And>i. i < length (text_blocks_list ns) \<Longrightarrow> selected r i \<Longrightarrow>
      normal_leaves (block_leaves (text_blocks_list ns ! i))
      \<and> list_all (\<lambda>ms. get_mark m ms = Some v)
          (covered_marks (sel_from r i) (sel_to r i (text_blocks_list ns ! i))
             (block_leaves (text_blocks_list ns ! i)))"
  shows "mark_selection m v r (mark_selection m w r ns) = ns"
proof -
  let ?g = "\<lambda>w i b. if selected r i then mark_block m w (sel_from r i) (sel_to r i b) b else b"
  have keeps: "\<And>w i b. is_text_block b \<Longrightarrow> is_text_block (?g w i b)"
    by (simp add: mark_block_text_block)
  have "map_blocks (?g v) 0 (map_blocks (?g w) 0 ns) = map_blocks (\<lambda>i b. ?g v i (?g w i b)) 0 ns"
    by (rule map_blocks_comp(2)) (rule keeps)
  also have "\<dots> = ns"
  proof (rule map_blocks_id_nth(2))
    fix j assume "j < blocks_in_list ns"
    then have j: "j < length (text_blocks_list ns)" by (simp add: length_text_blocks)
    let ?b = "text_blocks_list ns ! j"
    have tb: "is_text_block ?b" using j by (rule text_block_nth)
    show "?g v (0 + j) (?g w (0 + j) ?b) = ?b"
    proof (cases "selected r j")
      case True
      then show ?thesis
        using assms[OF j True] tb by (simp add: sel_to_mark_block mark_block_twice)
    next
      case False
      then show ?thesis by simp
    qed
  qed
  finally show ?thesis by (simp add: mark_selection_def)
qed

lemma first_node_marked:
  assumes s: "anchor r \<noteq> focus r" "\<not> hanging r"
    and doc: "in_document e (range_end r)"
    and uni: "marks_uniform m v e r"
  shows "mark_selection m w r (children e) = children e
     \<or> (\<exists>l. first_text_node (e\<lparr>children := mark_selection m w r (children e)\<rparr>) r = Some l
            \<and> get_mark m l = Some w)"
proof -
  let ?bs = "text_blocks_list (children e)"
  let ?bs1 = "text_blocks_list (mark_selection m w r (children e))"
  let ?e1 = "e\<lparr>children := mark_selection m w r (children e)\<rparr>"
  let ?j = "block (range_start r)" and ?jt = "block (range_end r)"
  let ?off = "offset (range_start r)"
  let ?len = "\<lambda>i. text_length (block_leaves (?bs ! i))"
  have jt: "?jt < length ?bs" and offt: "offset (range_end r) \<le> ?len ?jt"
    using doc by (simp_all add: in_document_def)
  have ne: "range_start r \<noteq> range_end r" using s(1) by (rule range_distinct)
  have ord: "?j < ?jt \<or> (?j = ?jt \<and> ?off < offset (range_end r))"
  proof -
    have "?j < ?jt \<or> (?j = ?jt \<and> ?off \<le> offset (range_end r))"
      using range_ordered[of r] by (simp add: point_le_def)
    moreover have "\<not> (?j = ?jt \<and> ?off = offset (range_end r))"
      using ne by (auto intro: point.equality)
    ultimately show ?thesis by auto
  qed
  then have j: "?j < length ?bs" using jt by auto
  have fb: "first_block r = ?j" "last_block r = ?jt" by (simp_all add: first_block_def last_block_def)
  have sel: "\<And>i. selected r i = (?j \<le> i \<and> i \<le> ?jt)" by (simp add: selected_def fb)
  have nth1: "\<And>i. i < length ?bs \<Longrightarrow> selected r i \<Longrightarrow>
      block_leaves (?bs1 ! i) = mark_leaves m w (sel_from r i) (sel_to r i (?bs ! i)) (block_leaves (?bs ! i))"
    by (simp add: mark_selection_nth(1) block_leaves_mark_block text_block_nth)
  have len1: "length ?bs1 = length ?bs" using j by (simp add: mark_selection_nth(2))
  have tl1: "\<And>i. i < length ?bs \<Longrightarrow> text_length (block_leaves (?bs1 ! i)) = ?len i"
  proof -
    fix i assume i: "i < length ?bs"
    show "text_length (block_leaves (?bs1 ! i)) = ?len i"
      using nth1[OF i] by (cases "selected r i") (simp_all add: text_length_mark_leaves mark_selection_nth(1)[OF i])
  qed
  show ?thesis
  proof (cases "?off < ?len ?j")
    case True
    have to: "?off < sel_to r ?j (?bs ! ?j)"
      using ord True by (auto simp: sel_to_def fb)
    have "\<exists>l. leaf_at ?off (mark_leaves m w (sel_from r ?j) (sel_to r ?j (?bs ! ?j)) (block_leaves (?bs ! ?j)))
        = Some l \<and> get_mark m l = Some w"
      using True to by (intro mark_leaves_covers) (simp_all add: sel_from_def fb)
    then obtain l where l: "leaf_at ?off (block_leaves (?bs1 ! ?j)) = Some l" "get_mark m l = Some w"
      using nth1[OF j] ord by (auto simp: sel)
    have "first_text_node ?e1 r = Some l"
      using j True l(1) by (simp add: first_text_node_def Let_def len1 tl1)
    then show ?thesis using l(2) by blast
  next
    case False
    then have lt: "?j < ?jt" using ord offt by auto
    then have j1: "?j + 1 < length ?bs" "selected r (?j + 1)" using jt by (simp_all add: sel)
    let ?b' = "?bs ! (?j + 1)"
    have from': "sel_from r (?j + 1) = 0" by (simp add: sel_from_def fb)
    have norm': "normal_leaves (block_leaves ?b')"
      using marks_uniform_nth(1)[OF uni j1] .
    show ?thesis
    proof (cases "text_length (block_leaves ?b') = 0 \<or> 0 < sel_to r (?j + 1) ?b'")
      case True
      then obtain l ls' where l: "mark_leaves m w 0 (sel_to r (?j + 1) ?b') (block_leaves ?b') = l # ls'"
        "get_mark m l = Some w"
        using mark_leaves_first[OF norm', of "sel_to r (?j + 1) ?b'" m w] by blast
      then have "block_leaves (?bs1 ! (?j + 1)) = l # ls'"
        using nth1[OF j1] from' by simp
      then have "first_text_node ?e1 r = Some l"
        using j j1(1) False by (simp add: first_text_node_def Let_def len1 tl1)
      then show ?thesis using l(2) by blast
    next
      case nothing: False
      then have ne': "text_length (block_leaves ?b') \<noteq> 0" and to0: "sel_to r (?j + 1) ?b' = 0"
        by simp_all
      then have last: "?jt = ?j + 1" and offt0: "offset (range_end r) = 0"
        by (auto simp: sel_to_def fb split: if_splits)
      have "mark_selection m w r (children e) = children e"
      proof (rule mark_selection_same)
        fix i assume i: "i < length ?bs" "selected r i"
        then have "i = ?j \<or> i = ?j + 1" using last by (auto simp: sel le_Suc_eq)
        then consider "i = ?j" | "i = ?j + 1" by blast
        then show "mark_leaves m w (sel_from r i) (sel_to r i (?bs ! i)) (block_leaves (?bs ! i))
            = block_leaves (?bs ! i)"
        proof cases
          case 1
          have fr: "sel_from r i = ?off" and to: "sel_to r i (?bs ! i) = ?len ?j"
            using 1 lt by (simp_all add: sel_from_def sel_to_def fb)
          show ?thesis
          proof (cases "?len ?j = 0")
            case True
            have "?off \<noteq> 0" using s(2) ne offt0 by (auto simp: hanging_def)
            then show ?thesis using True 1 fr by (simp add: mark_leaves_def)
          next
            case nz: False
            have "set_range (set_mark m w) ?off (?len ?j) 0 (chars_of (block_leaves (?bs ! ?j)))
                = chars_of (block_leaves (?bs ! ?j))"
              using False by (intro set_range_id) (simp add: length_chars_of)
            then show ?thesis using nz 1 fr to by (simp add: mark_leaves_def)
          qed
        next
          case 2
          have "set_range (set_mark m w) 0 0 0 (chars_of (block_leaves ?b')) = chars_of (block_leaves ?b')"
            by (intro set_range_id) simp
          then show ?thesis using 2 from' to0 ne' by (simp add: mark_leaves_def)
        qed
      qed
      then show ?thesis by blast
    qed
  qed
qed

lemma same_children: "children e = cs \<Longrightarrow> e\<lparr>children := cs\<rparr> = e"
  by (cases e) auto

text \<open>
  C3, as the claim states it, fails: on a paragraph with one leaf that has no
  \<^verbatim>\<open>bold\<close> key, selected as a whole, the first \<^verbatim>\<open>toggleFormat('bold')\<close> stores
  \<^verbatim>\<open>bold: true\<close> and the second stores \<^verbatim>\<open>bold: false\<close>; the key does not become absent
  again, and the document is not the one before.
\<close>

theorem toggleFormat_twice_counterexample:
  "children mark_example = [Element ''paragraph'' None [Text (plain ''Hello'')]]
   \<and> children (toggleFormat Bold (toggleFormat Bold mark_example)) =
       [Element ''paragraph'' None [Text ((plain ''Hello'')\<lparr>bold := Some False\<rparr>)]]
   \<and> toggleFormat Bold (toggleFormat Bold mark_example) \<noteq> mark_example"
  by code_simp

text \<open>
  C3, amended. With a collapsed selection \<^verbatim>\<open>toggleFormat(m)\<close> changes neither the
  document nor the selection, so applied twice it leaves the document as it was; what
  it sets is the pending marks. With a selection that is not collapsed the document
  comes back when everything that the selection covers has the mark \<open>m\<close> stored
  already, with one common value \<open>v\<close>, true or false: the selection lies in the
  document and ends after a character of its last block, no marks are pending, the
  leaves of the blocks of the selection are in the library's normal form, and every
  character that the selection covers, and the leaf of a covered block without text,
  has \<open>m\<close> stored with the value \<open>v\<close>. Then \<^verbatim>\<open>toggleFormat(m)\<close> applied twice over the
  same selection gives back the editor as it was, also where the selection runs
  backward, where it cuts a leaf, and where the first application merges leaves.
  Nothing is said here of a selection that covers a leaf without the key or leaves
  with different values, nor of one that ends at the very start of a block, which the
  library may replace by the unhung selection.
\<close>

theorem toggleFormat_twice_on_uniform_marks:
  assumes s: "selection e = Some r"
  shows "(anchor r \<noteq> focus r \<and> 0 < offset (range_end r) \<and> marks e = None
          \<and> in_document e (anchor r) \<and> in_document e (focus r) \<and> marks_uniform m v e r
         \<longrightarrow> toggleFormat m (toggleFormat m e) = e)
       \<and> (anchor r = focus r
          \<longrightarrow> children (toggleFormat m (toggleFormat m e)) = children e
              \<and> selection (toggleFormat m (toggleFormat m e)) = selection e)"
proof (intro conjI impI)
  assume "anchor r = focus r"
  then show "children (toggleFormat m (toggleFormat m e)) = children e"
    using s by (simp add: toggleFormat_def addMark_def)
next
  assume "anchor r = focus r"
  then show "selection (toggleFormat m (toggleFormat m e)) = selection e"
    using s by (simp add: toggleFormat_def addMark_def)
next
  assume h: "anchor r \<noteq> focus r \<and> 0 < offset (range_end r) \<and> marks e = None
          \<and> in_document e (anchor r) \<and> in_document e (focus r) \<and> marks_uniform m v e r"
  then have ex: "anchor r \<noteq> focus r" and nh: "\<not> hanging r" and pm: "marks e = None"
    and uni: "marks_uniform m v e r" by (simp_all add: hanging_def)
  have doc: "in_document e (range_end r)" using h range_end_cases[of r] by auto
  have add: "\<And>e' w. selection e' = Some r \<Longrightarrow>
      addMark e' m w = e'\<lparr>children := mark_selection m w r (children e')\<rparr>"
  proof -
    fix e' :: editor and w assume s': "selection e' = Some r"
    have "e'\<lparr>children := mark_selection m w r (children e'), selection := Some r, marks := marks e'\<rparr>
        = e'\<lparr>children := mark_selection m w r (children e')\<rparr>"
      using s' by (cases e') simp
    then show "addMark e' m w = e'\<lparr>children := mark_selection m w r (children e')\<rparr>"
      using s' ex nh by (simp add: addMark_def unhangRange_def)
  qed
  have same: "mark_selection m v r (children e) = children e"
    using marks_uniform_nth(2)[OF uni] by (intro mark_selection_same mark_leaves_same)
  have twice: "\<And>w. mark_selection m v r (mark_selection m w r (children e)) = children e"
    using marks_uniform_nth[OF uni] by (intro mark_selection_twice) simp
  show "toggleFormat m (toggleFormat m e) = e"
  proof (cases "isFormatActive e m = v")
    case False
    then have "toggleFormat m e = e"
      using add[OF s, of v] same by (simp add: toggleFormat_def same_children)
    then show ?thesis by simp
  next
    case True
    let ?e1 = "e\<lparr>children := mark_selection m (\<not> v) r (children e)\<rparr>"
    have first: "toggleFormat m e = ?e1"
      using True add[OF s, of "\<not> v"] by (simp add: toggleFormat_def)
    consider "mark_selection m (\<not> v) r (children e) = children e"
      | l where "first_text_node ?e1 r = Some l" "get_mark m l = Some (\<not> v)"
      using first_node_marked[OF ex nh doc uni, of "\<not> v"] by blast
    then show ?thesis
    proof cases
      case 1
      then have "?e1 = e" by (simp add: same_children)
      then show ?thesis using first by simp
    next
      case 2
      have "isFormatActive ?e1 m = (\<not> v)"
        using s pm ex 2 by (simp add: isFormatActive_def Editor_marks_def Let_def get_mark_marks_of)
      then have "toggleFormat m ?e1 = ?e1\<lparr>children := mark_selection m v r (children ?e1)\<rparr>"
        using add[of ?e1 v] s by (simp add: toggleFormat_def)
      then have "toggleFormat m ?e1 = e" using twice[of "\<not> v"] by (simp add: same_children)
      then show ?thesis using first by simp
    qed
  qed
qed

theorem toggleFormat_twice_on_uniform_marks_witness:
  "toggleFormat Bold (toggleFormat Bold marks_example) = marks_example
   \<and> children (toggleFormat Bold marks_example) =
       [Element ''paragraph'' None [Text ((plain ''Hello world'')\<lparr>bold := Some True\<rparr>)]]
   \<and> children (toggleFormat Bold (toggleFormat Bold (marks_example\<lparr>selection := select 0 3 0 3\<rparr>))) =
       children (marks_example\<lparr>selection := select 0 3 0 3\<rparr>)
   \<and> marks (toggleFormat Bold (marks_example\<lparr>selection := select 0 3 0 3\<rparr>)) =
       Some (no_marks\<lparr>bold := Some False\<rparr>)"
proof -
  let ?r = "\<lparr>anchor = \<lparr>block = 0, offset = 6\<rparr>, focus = \<lparr>block = 0, offset = 11\<rparr>\<rparr>"
  let ?c = "\<lparr>anchor = \<lparr>block = 0, offset = 3\<rparr>, focus = \<lparr>block = 0, offset = 3\<rparr>\<rparr>"
  have s: "selection marks_example = Some ?r"
    and sc: "selection (marks_example\<lparr>selection := select 0 3 0 3\<rparr>) = Some ?c"
    by (simp_all add: marks_example_def select_def)
  have ex: "anchor ?r \<noteq> focus ?r" and col: "anchor ?c = focus ?c" by simp_all
  have nh: "0 < offset (range_end ?r)" by code_simp
  have pm: "marks marks_example = None" by (simp add: marks_example_def)
  have doc: "in_document marks_example (anchor ?r)" "in_document marks_example (focus ?r)"
    by code_simp+
  have uni: "marks_uniform Bold False marks_example ?r" by code_simp
  have one: "children (toggleFormat Bold marks_example) =
       [Element ''paragraph'' None [Text ((plain ''Hello world'')\<lparr>bold := Some True\<rparr>)]]"
    "marks (toggleFormat Bold (marks_example\<lparr>selection := select 0 3 0 3\<rparr>)) =
       Some (no_marks\<lparr>bold := Some False\<rparr>)"
    by code_simp+
  show ?thesis
    using toggleFormat_twice_on_uniform_marks[OF s, of Bold False]
      toggleFormat_twice_on_uniform_marks[OF sc, of Bold False]
      ex col nh pm doc uni one
    by simp
qed

end
